theory Spec2Isabelle
  imports Main "HOL-Library.Word"
begin

section \<open>The dense column view of blaze/math/views/DenseColumn.h\<close>

text \<open>
  The development embeds the primary class template \<open>DenseColumn<MT,SO,SF>\<close> (the view
  on a column of a column-major dense matrix) together with the free functions that
  follow the class; of the specialization for general row-major matrices it embeds the
  member \<open>reset\<close>, which differs. A view is a reference to a matrix and a fixed column
  index; every operation reads and writes the matrix behind the reference, so matrices
  live in a store that is passed through all operations. Both families of kernels are
  embedded: the default ones, which transfer element by element, and the intrinsic ones,
  which move blocks through the load and store functions of the matrix. The internal
  assertions that close the operators are not part of the development.

  Sizes and indices (\<open>size_t\<close>) are natural numbers: the only arithmetic on them is
  \<open>col_+1\<close> and the increment of a loop index that is below a size, which cannot
  wrap.
\<close>

subsection \<open>Exceptions and the structural category of the matrix type\<close>

text \<open>Every exception thrown in the file is a \<open>std::invalid_argument\<close> with a message.\<close>

datatype exn = invalid_argument string

text \<open>
  Modelled from the spec: the type traits \<open>IsLower\<close>, \<open>IsUpper\<close>, \<open>IsDiagonal\<close> and
  \<open>IsRestricted\<close> of the matrix type \<open>MT\<close> are declared outside this file. The spec
  names the structural categories; a diagonal matrix type is both lower and upper, and
  a restricted type is a lower or an upper one (the static assertion of the class).
\<close>

datatype category = Unconstrained | LowerTriangular | UpperTriangular | Diagonal

fun IsLower :: "category \<Rightarrow> bool" where
  "IsLower LowerTriangular = True"
| "IsLower Diagonal = True"
| "IsLower _ = False"

fun IsUpper :: "category \<Rightarrow> bool" where
  "IsUpper UpperTriangular = True"
| "IsUpper Diagonal = True"
| "IsUpper _ = False"

fun IsDiagonal :: "category \<Rightarrow> bool" where
  "IsDiagonal Diagonal = True"
| "IsDiagonal _ = False"

fun IsRestricted :: "category \<Rightarrow> bool" where
  "IsRestricted Unconstrained = False"
| "IsRestricted _ = True"

subsection \<open>The storage adapter\<close>

text \<open>
  Modelled from the spec: the dense matrix behind a view is an external collaborator
  (the storage adapter). Of its contract the view uses \<open>rows()\<close>, \<open>columns()\<close>, the
  element access \<open>(i,j)\<close> and \<open>reset(col)\<close>. The element access is guarded by a debug
  assertion only; an access outside the matrix has no defined result, which the model
  makes explicit as \<open>None\<close>.
\<close>

record 'a matrix =
  rows :: nat
  columns :: nat
  category :: category
  elems :: "nat \<Rightarrow> nat \<Rightarrow> 'a"

definition get :: "'a matrix \<Rightarrow> nat \<Rightarrow> nat \<Rightarrow> 'a option" where
  "get m i j = (if i < rows m \<and> j < columns m then Some (elems m i j) else None)"

definition put :: "'a matrix \<Rightarrow> nat \<Rightarrow> nat \<Rightarrow> 'a \<Rightarrow> 'a matrix option" where
  "put m i j x =
     (if i < rows m \<and> j < columns m
      then Some (m\<lparr>elems := (elems m)(i := (elems m i)(j := x))\<rparr>)
      else None)"

text \<open>
  Modelled from the spec: \<open>reset(col)\<close> of the storage adapter is the column-reset
  primitive, which clears every element of the column to the default value.
\<close>

definition matrix_reset :: "'a::zero matrix \<Rightarrow> nat \<Rightarrow> 'a matrix option" where
  "matrix_reset m j =
     (if j < columns m
      then Some (m\<lparr>elems := (\<lambda>i. if i < rows m then (elems m i)(j := 0) else elems m i)\<rparr>)
      else None)"

text \<open>The store maps the address of a matrix object to its current value.\<close>

type_synonym 'a heap = "nat \<Rightarrow> 'a matrix"

definition elem_read :: "'a heap \<Rightarrow> nat \<Rightarrow> nat \<Rightarrow> nat \<Rightarrow> 'a option" where
  "elem_read h a i j = get (h a) i j"

definition elem_write :: "'a heap \<Rightarrow> nat \<Rightarrow> nat \<Rightarrow> nat \<Rightarrow> 'a \<Rightarrow> 'a heap option" where
  "elem_write h a i j x =
     (case put (h a) i j x of None \<Rightarrow> None | Some m \<Rightarrow> Some (h(a := m)))"

subsection \<open>The view\<close>

text \<open>
  \<open>mat\<close> is the reference to the matrix (the member \<open>matrix_\<close>) and \<open>col\<close> the
  column index (the member \<open>col_\<close>). \<open>this\<close> is the address of the view object
  itself: the copy assignment compares it with the address of its argument.
\<close>

record column =
  this :: nat
  mat :: nat
  col :: nat

text \<open>The constructor: throws for a column index outside the matrix.\<close>

definition DenseColumn :: "'a heap \<Rightarrow> nat \<Rightarrow> nat \<Rightarrow> nat \<Rightarrow> exn + column" where
  "DenseColumn h self matrix index =
     (if columns (h matrix) \<le> index
      then Inl (invalid_argument ''Invalid column access index'')
      else Inr \<lparr>this = self, mat = matrix, col = index\<rparr>)"

definition size_col :: "'a heap \<Rightarrow> column \<Rightarrow> nat" where
  "size_col h c = rows (h (mat c))"

text \<open>The subscript operator: a debug assertion on the index, then \<open>matrix_(index,col_)\<close>.\<close>

definition subscript :: "'a heap \<Rightarrow> column \<Rightarrow> nat \<Rightarrow> 'a option" where
  "subscript h c index =
     (if index < size_col h c then elem_read h (mat c) index (col c) else None)"


subsection \<open>Right-hand side vectors\<close>

text \<open>
  Modelled from the spec: the vector types a column is assigned from are declared
  outside this file. Three kinds are distinguished: a dense vector that owns its
  elements, a sparse vector (its size and its stored entries, index and value, in
  increasing index order), and a dense column view on some matrix of the store.
  \<open>vec_size\<close> is \<open>size()\<close> and \<open>vec_at\<close> the subscript operator, which for a
  sparse vector yields the stored value or the default value; \<open>isDefault\<close> on an
  element compares it with the default (zero) value of the element type.
\<close>

datatype 'a vector =
    DynamicVector "'a list"
  | CompressedVector nat "(nat \<times> 'a) list"
  | ColumnView column

fun IsSparseVector :: "'a vector \<Rightarrow> bool" where
  "IsSparseVector (CompressedVector n es) = True"
| "IsSparseVector _ = False"

fun entries :: "'a vector \<Rightarrow> (nat \<times> 'a) list" where
  "entries (CompressedVector n es) = es"
| "entries _ = []"

fun vec_size :: "'a heap \<Rightarrow> 'a vector \<Rightarrow> nat" where
  "vec_size h (DynamicVector xs) = length xs"
| "vec_size h (CompressedVector n es) = n"
| "vec_size h (ColumnView r) = size_col h r"

fun vec_at :: "'a::zero heap \<Rightarrow> 'a vector \<Rightarrow> nat \<Rightarrow> 'a option" where
  "vec_at h (DynamicVector xs) i = (if i < length xs then Some (xs ! i) else None)"
| "vec_at h (CompressedVector n es) i =
     (if i < n then Some (case map_of es i of None \<Rightarrow> 0 | Some x \<Rightarrow> x) else None)"
| "vec_at h (ColumnView r) i = subscript h r i"

definition isDefault :: "'a::zero \<Rightarrow> bool" where
  "isDefault x = (x = 0)"

text \<open>
  Modelled from the spec: \<open>canAlias\<close> of the right-hand side is the identity test
  against the matrix behind the view. A vector that owns its elements is never that
  matrix; a column view aliases it when it refers to the same matrix object.
\<close>

fun canAlias :: "'a vector \<Rightarrow> nat \<Rightarrow> bool" where
  "canAlias (ColumnView r) a = (mat r = a)"
| "canAlias _ a = False"

text \<open>
  \<open>lowerBound\<close> of a sparse vector (declared outside this file; modelled from the
  spec's lower-bound seek over the ordered entries): the position of the first stored
  entry whose index is not less than the given one.
\<close>

fun lowerBound :: "(nat \<times> 'a) list \<Rightarrow> nat \<Rightarrow> nat" where
  "lowerBound [] k = 0"
| "lowerBound (e # es) k = (if fst e < k then 1 + lowerBound es k else 0)"

subsection \<open>The invariant checker\<close>

text \<open>
  The dense overloads run \<open>for( i=lo; i<hi; ++i ) if( !isDefault( rhs[i] ) ) return false;\<close>
  over one or two index ranges.
\<close>

function dense_range :: "'a::zero heap \<Rightarrow> 'a vector \<Rightarrow> nat \<Rightarrow> nat \<Rightarrow> bool option" where
  "dense_range h rhs i hi =
     (if i < hi
      then (case vec_at h rhs i of
              None \<Rightarrow> None
            | Some x \<Rightarrow> if \<not> isDefault x then Some False else dense_range h rhs (i + 1) hi)
      else Some True)"
  by pat_completeness auto
termination
  by (relation "measure (\<lambda>(h, rhs, i, hi). hi - i)") auto

text \<open>The sparse overloads visit stored entries only.\<close>

fun sparse_range :: "(nat \<times> 'a::zero) list \<Rightarrow> bool" where
  "sparse_range [] = True"
| "sparse_range (e # es) = (if \<not> isDefault (snd e) then False else sparse_range es)"

fun sparse_diagonal :: "nat \<Rightarrow> (nat \<times> 'a::zero) list \<Rightarrow> bool" where
  "sparse_diagonal c [] = True"
| "sparse_diagonal c (e # es) =
     (if fst e \<noteq> c \<and> \<not> isDefault (snd e) then False else sparse_diagonal c es)"

text \<open>
  \<open>preservesInvariant\<close>: the seven overloads, selected by the category of the matrix
  type and by the kind of the right-hand side.
\<close>

definition preservesInvariant :: "'a::zero heap \<Rightarrow> column \<Rightarrow> 'a vector \<Rightarrow> bool option" where
  "preservesInvariant h c rhs =
     (let k = category (h (mat c)) in
      if \<not> IsRestricted k then Some True
      else if IsDiagonal k then
        (if IsSparseVector rhs then Some (sparse_diagonal (col c) (entries rhs))
         else (case dense_range h rhs 0 (col c) of
                 None \<Rightarrow> None
               | Some False \<Rightarrow> Some False
               | Some True \<Rightarrow> dense_range h rhs (col c + 1) (size_col h c)))
      else if IsLower k then
        (if IsSparseVector rhs
         then Some (sparse_range (take (lowerBound (entries rhs) (col c)) (entries rhs)))
         else dense_range h rhs 0 (col c))
      else
        (if IsSparseVector rhs
         then Some (sparse_range (drop (lowerBound (entries rhs) (col c + 1)) (entries rhs)))
         else dense_range h rhs (col c + 1) (size_col h c)))"

subsection \<open>Reset\<close>

text \<open>
  The member \<open>reset()\<close>. The primary template (\<open>SO = True\<close>, column-major storage)
  hands the column to the matrix, \<open>matrix_.reset( col_ )\<close>; the specialization for
  general row-major matrices (\<open>SO = False\<close>) clears the elements one by one.
\<close>

function reset_loop :: "column \<Rightarrow> nat \<Rightarrow> nat \<Rightarrow> 'a::zero heap \<Rightarrow> 'a heap option" where
  "reset_loop c n i h =
     (if i < n
      then (case elem_write h (mat c) i (col c) 0 of
              None \<Rightarrow> None
            | Some h1 \<Rightarrow> reset_loop c n (i + 1) h1)
      else Some h)"
  by pat_completeness auto
termination
  by (relation "measure (\<lambda>(c, n, i, h). n - i)") auto

definition reset_member :: "bool \<Rightarrow> column \<Rightarrow> 'a::zero heap \<Rightarrow> 'a heap option" where
  "reset_member SO c h =
     (if SO
      then (case matrix_reset (h (mat c)) (col c) of
              None \<Rightarrow> None
            | Some m \<Rightarrow> Some (h(mat c := m)))
      else reset_loop c (size_col h c) 0 h)"


subsection \<open>The assignment kernels\<close>

text \<open>
  Each of the kernels \<open>assign\<close>, \<open>addAssign\<close>, \<open>subAssign\<close> and \<open>multAssign\<close> has
  a default implementation (element by element) and an intrinsic implementation (block
  by block) for a dense right-hand side, and an implementation for a sparse one. The
  four default implementations differ only in the compound operator applied to the
  element, \<open>matrix_(i,col_) op= x\<close>, which \<open>elem_modify\<close> takes as the function from the
  old element and \<open>x\<close> to the new element.
\<close>

definition elem_modify ::
  "('a \<Rightarrow> 'a \<Rightarrow> 'a) \<Rightarrow> 'a heap \<Rightarrow> column \<Rightarrow> nat \<Rightarrow> 'a \<Rightarrow> 'a heap option" where
  "elem_modify f h c i x =
     (case elem_read h (mat c) i (col c) of
        None \<Rightarrow> None
      | Some old \<Rightarrow> elem_write h (mat c) i (col c) (f old x))"

text \<open>The dense loop, unrolled by two: \<open>for( i=0; i<ipos; i+=2 )\<close>.\<close>

function dense_loop ::
  "('a \<Rightarrow> 'a \<Rightarrow> 'a) \<Rightarrow> column \<Rightarrow> 'a::zero vector \<Rightarrow> nat \<Rightarrow> nat \<Rightarrow> 'a heap \<Rightarrow> 'a heap option" where
  "dense_loop f c rhs ipos i h =
     (if i < ipos
      then (case vec_at h rhs i of
              None \<Rightarrow> None
            | Some x \<Rightarrow>
        (case elem_modify f h c i x of
              None \<Rightarrow> None
            | Some h1 \<Rightarrow>
        (case vec_at h1 rhs (i + 1) of
              None \<Rightarrow> None
            | Some y \<Rightarrow>
        (case elem_modify f h1 c (i + 1) y of
              None \<Rightarrow> None
            | Some h2 \<Rightarrow> dense_loop f c rhs ipos (i + 2) h2))))
      else Some h)"
  by pat_completeness auto
termination
  by (relation "measure (\<lambda>(f, c, rhs, ipos, i, h). ipos - i)") auto

text \<open>
  \<open>ipos\<close> is \<open>size & size_t(-2)\<close>, the size with its lowest bit cleared; the last
  element of a vector of odd size is transferred after the loop. The internal assertion
  on the sizes opens every kernel.
\<close>

definition dense_kernel ::
  "('a \<Rightarrow> 'a \<Rightarrow> 'a) \<Rightarrow> column \<Rightarrow> 'a::zero vector \<Rightarrow> 'a heap \<Rightarrow> 'a heap option" where
  "dense_kernel f c rhs h =
     (if size_col h c \<noteq> vec_size h rhs then None
      else
        (let ipos = vec_size h rhs - vec_size h rhs mod 2 in
         case dense_loop f c rhs ipos 0 h of
           None \<Rightarrow> None
         | Some h1 \<Rightarrow>
             if ipos < vec_size h1 rhs
             then (case vec_at h1 rhs ipos of
                     None \<Rightarrow> None
                   | Some x \<Rightarrow> elem_modify f h1 c ipos x)
             else Some h1))"

text \<open>The sparse loop over the stored entries, \<open>matrix_(element->index(),col_) op= element->value()\<close>.\<close>

fun sparse_loop ::
  "('a \<Rightarrow> 'a \<Rightarrow> 'a) \<Rightarrow> column \<Rightarrow> (nat \<times> 'a) list \<Rightarrow> 'a heap \<Rightarrow> 'a heap option" where
  "sparse_loop f c [] h = Some h"
| "sparse_loop f c (e # es) h =
     (case elem_modify f h c (fst e) (snd e) of
        None \<Rightarrow> None
      | Some h1 \<Rightarrow> sparse_loop f c es h1)"

definition sparse_kernel ::
  "('a \<Rightarrow> 'a \<Rightarrow> 'a) \<Rightarrow> column \<Rightarrow> 'a vector \<Rightarrow> 'a heap \<Rightarrow> 'a heap option" where
  "sparse_kernel f c rhs h =
     (if size_col h c \<noteq> vec_size h rhs then None
      else sparse_loop f c (entries rhs) h)"

subsection \<open>The intrinsic kernels\<close>

text \<open>
  The constants that select and drive the intrinsic kernels are declared outside this
  file; they are configuration derived from the element type and the hardware, and the
  development takes them as parameters. \<open>vectorizable\<close> stands for
  \<open>MT::vectorizable\<close> and \<open>VT::vectorizable\<close>, which for a dense matrix and a dense
  vector say the same of the element type; \<open>addition\<close>, \<open>subtraction\<close> and
  \<open>multiplication\<close> are the flags of \<open>IntrinsicTrait<ElementType>\<close>. The number
  \<open>IT::size\<close> of elements of a block is a power of two, \<open>2 ^ size_log2\<close>.
  \<open>useStreaming\<close>, \<open>cacheSize\<close> and \<open>sizeof(ElementType)\<close> decide for the streaming
  store. A right-hand side of type \<open>'a vector\<close> has the element type of the matrix, so
  the test \<open>IsSame<ElementType,typename VT::ElementType>\<close> of the selectors holds for
  it; a right-hand side of another element type has a subsection of its own.
\<close>

record config =
  vectorizable :: bool
  addition :: bool
  subtraction :: bool
  multiplication :: bool
  size_log2 :: nat
  useStreaming :: bool
  cacheSize :: nat
  sizeof_ElementType :: nat

definition IT_size :: "config \<Rightarrow> nat" where
  "IT_size cfg = 2 ^ size_log2 cfg"

definition VectorizedAssign :: "config \<Rightarrow> bool" where
  "VectorizedAssign cfg = vectorizable cfg"

definition VectorizedAddAssign :: "config \<Rightarrow> bool" where
  "VectorizedAddAssign cfg = (vectorizable cfg \<and> addition cfg)"

definition VectorizedSubAssign :: "config \<Rightarrow> bool" where
  "VectorizedSubAssign cfg = (vectorizable cfg \<and> subtraction cfg)"

definition VectorizedMultAssign :: "config \<Rightarrow> bool" where
  "VectorizedMultAssign cfg = (vectorizable cfg \<and> multiplication cfg)"

text \<open>
  Modelled from the spec: the storage adapter loads and stores a block of \<open>IT::size\<close>
  consecutive elements of a column at \<open>(i,j)\<close>. The storage of a column is padded to
  whole blocks, so the block that starts at the last rows of the matrix ends in the
  padding; the elements \<open>elems m r j\<close> with \<open>r\<close> not below \<open>rows m\<close> stand for the
  padding. \<open>stream\<close> is the store that bypasses the cache; it leaves the same elements
  behind as \<open>store\<close>.
\<close>

definition block_load :: "nat \<Rightarrow> 'a matrix \<Rightarrow> nat \<Rightarrow> nat \<Rightarrow> 'a list option" where
  "block_load n m i j =
     (if i < rows m \<and> j < columns m
      then Some (map (\<lambda>k. elems m (i + k) j) [0..<n])
      else None)"

definition block_store :: "'a matrix \<Rightarrow> nat \<Rightarrow> nat \<Rightarrow> 'a list \<Rightarrow> 'a matrix option" where
  "block_store m i j b =
     (if i < rows m \<and> j < columns m
      then Some (m\<lparr>elems :=
             (\<lambda>r k. if k = j \<and> i \<le> r \<and> r < i + length b then b ! (r - i) else elems m r k)\<rparr>)
      else None)"

definition block_stream :: "'a matrix \<Rightarrow> nat \<Rightarrow> nat \<Rightarrow> 'a list \<Rightarrow> 'a matrix option" where
  "block_stream m i j b = block_store m i j b"

text \<open>
  Modelled from the spec: the block of \<open>n\<close> elements of a dense right-hand side that
  starts at index \<open>i\<close>, which \<open>load(i)\<close> and the \<open>load()\<close> of an iterator at \<open>i\<close>
  yield. A dense vector that owns its elements is padded with default values; a column
  view loads from its matrix. \<open>isAliased\<close> of the right-hand side is true of the view
  on the same column of the same matrix.
\<close>

fun vec_load :: "nat \<Rightarrow> 'a::zero heap \<Rightarrow> 'a vector \<Rightarrow> nat \<Rightarrow> 'a list option" where
  "vec_load n h (DynamicVector xs) i =
     (if i < length xs
      then Some (map (\<lambda>k. if i + k < length xs then xs ! (i + k) else 0) [0..<n])
      else None)"
| "vec_load n h (ColumnView r) i = block_load n (h (mat r)) i (col r)"
| "vec_load n h (CompressedVector m es) i = None"

fun isAliased :: "'a vector \<Rightarrow> column \<Rightarrow> bool" where
  "isAliased (ColumnView r) c = (mat r = mat c \<and> col r = col c)"
| "isAliased _ c = False"

text \<open>
  \<open>matrix_.store( i, col_, matrix_.load(i,col_) op b )\<close>: the block of the column at
  \<open>i\<close> is combined element by element with the block \<open>b\<close> and stored. For the plain
  assignment the block stored is \<open>b\<close> itself.
\<close>

definition block_modify ::
  "('a \<Rightarrow> 'a \<Rightarrow> 'a) \<Rightarrow> nat \<Rightarrow> 'a heap \<Rightarrow> column \<Rightarrow> nat \<Rightarrow> 'a list \<Rightarrow> 'a heap option" where
  "block_modify f n h c i b =
     (case block_load n (h (mat c)) i (col c) of
        None \<Rightarrow> None
      | Some old \<Rightarrow>
          (case block_store (h (mat c)) i (col c) (map2 f old b) of
             None \<Rightarrow> None
           | Some m \<Rightarrow> Some (h(mat c := m))))"

text \<open>
  The streaming loop of the intrinsic \<open>assign\<close>:
  \<open>for( i=0; i<rows; i+=IT::size ) matrix_.stream( i, col_, (~rhs).load(i) );\<close>
\<close>

function stream_loop ::
  "config \<Rightarrow> column \<Rightarrow> 'a::zero vector \<Rightarrow> nat \<Rightarrow> nat \<Rightarrow> 'a heap \<Rightarrow> 'a heap option" where
  "stream_loop cfg c rhs n i h =
     (if i < n
      then (case vec_load (IT_size cfg) h rhs i of
              None \<Rightarrow> None
            | Some b \<Rightarrow>
        (case block_stream (h (mat c)) i (col c) b of
              None \<Rightarrow> None
            | Some m \<Rightarrow> stream_loop cfg c rhs n (i + IT_size cfg) (h(mat c := m))))
      else Some h)"
  by pat_completeness auto
termination
  by (relation "measure (\<lambda>(cfg, c, rhs, n, i, h). n - i)") (auto simp add: IT_size_def intro!: diff_less_mono2)

text \<open>
  The loop unrolled by four, \<open>for( i=0; i<ipos; i+=IT::size*4 )\<close>. The iterator \<open>it\<close>
  over the right-hand side is its position; the loop hands it on to the loop for the
  remaining blocks.
\<close>

function simd_loop4 ::
  "('a \<Rightarrow> 'a \<Rightarrow> 'a) \<Rightarrow> config \<Rightarrow> column \<Rightarrow> 'a::zero vector \<Rightarrow> nat \<Rightarrow> nat \<Rightarrow> nat \<Rightarrow> 'a heap
     \<Rightarrow> ('a heap \<times> nat) option" where
  "simd_loop4 f cfg c rhs ipos i it h =
     (if i < ipos
      then (case vec_load (IT_size cfg) h rhs it of
              None \<Rightarrow> None
            | Some b0 \<Rightarrow>
        (case block_modify f (IT_size cfg) h c i b0 of
              None \<Rightarrow> None
            | Some h1 \<Rightarrow>
        (case vec_load (IT_size cfg) h1 rhs (it + IT_size cfg) of
              None \<Rightarrow> None
            | Some b1 \<Rightarrow>
        (case block_modify f (IT_size cfg) h1 c (i + IT_size cfg) b1 of
              None \<Rightarrow> None
            | Some h2 \<Rightarrow>
        (case vec_load (IT_size cfg) h2 rhs (it + IT_size cfg * 2) of
              None \<Rightarrow> None
            | Some b2 \<Rightarrow>
        (case block_modify f (IT_size cfg) h2 c (i + IT_size cfg * 2) b2 of
              None \<Rightarrow> None
            | Some h3 \<Rightarrow>
        (case vec_load (IT_size cfg) h3 rhs (it + IT_size cfg * 3) of
              None \<Rightarrow> None
            | Some b3 \<Rightarrow>
        (case block_modify f (IT_size cfg) h3 c (i + IT_size cfg * 3) b3 of
              None \<Rightarrow> None
            | Some h4 \<Rightarrow>
                simd_loop4 f cfg c rhs ipos (i + IT_size cfg * 4) (it + IT_size cfg * 4) h4))))))))
      else Some (h, it))"
  by pat_completeness auto
termination
  by (relation "measure (\<lambda>(f, cfg, c, rhs, ipos, i, it, h). ipos - i)") (auto simp add: IT_size_def intro!: diff_less_mono2)

text \<open>
  The loop for the remaining blocks,
  \<open>for( i=ipos; i<rows; i+=IT::size, it+=IT::size ) matrix_.store( i, col_, ... );\<close>.
  Its last block is a whole block too.
\<close>

function simd_loop1 ::
  "('a \<Rightarrow> 'a \<Rightarrow> 'a) \<Rightarrow> config \<Rightarrow> column \<Rightarrow> 'a::zero vector \<Rightarrow> nat \<Rightarrow> nat \<Rightarrow> nat \<Rightarrow> 'a heap
     \<Rightarrow> 'a heap option" where
  "simd_loop1 f cfg c rhs n i it h =
     (if i < n
      then (case vec_load (IT_size cfg) h rhs it of
              None \<Rightarrow> None
            | Some b \<Rightarrow>
        (case block_modify f (IT_size cfg) h c i b of
              None \<Rightarrow> None
            | Some h1 \<Rightarrow> simd_loop1 f cfg c rhs n (i + IT_size cfg) (it + IT_size cfg) h1))
      else Some h)"
  by pat_completeness auto
termination
  by (relation "measure (\<lambda>(f, cfg, c, rhs, n, i, it, h). n - i)") (auto simp add: IT_size_def intro!: diff_less_mono2)

text \<open>
  The two loops in sequence. \<open>ipos\<close> is \<open>rows & size_t(-IT::size*4)\<close>, which the
  internal assertion of the source equates with \<open>rows - ( rows % (IT::size*4) )\<close>.
\<close>

definition simd_kernel ::
  "('a \<Rightarrow> 'a \<Rightarrow> 'a) \<Rightarrow> config \<Rightarrow> column \<Rightarrow> 'a::zero vector \<Rightarrow> 'a heap \<Rightarrow> 'a heap option" where
  "simd_kernel f cfg c rhs h =
     (if size_col h c \<noteq> vec_size h rhs then None
      else
        (let n = size_col h c; ipos = n - n mod (IT_size cfg * 4) in
         case simd_loop4 f cfg c rhs ipos 0 0 h of
           None \<Rightarrow> None
         | Some (h1, it) \<Rightarrow> simd_loop1 f cfg c rhs n ipos it h1))"

text \<open>
  The intrinsic \<open>assign\<close> streams a column that is longer than a third of the cache,
  when streaming is enabled and the right-hand side is not the column itself.
\<close>

definition simd_assign :: "config \<Rightarrow> column \<Rightarrow> 'a::zero vector \<Rightarrow> 'a heap \<Rightarrow> 'a heap option" where
  "simd_assign cfg c rhs h =
     (if size_col h c \<noteq> vec_size h rhs then None
      else if useStreaming cfg
              \<and> size_col h c > cacheSize cfg div (sizeof_ElementType cfg * 3)
              \<and> \<not> isAliased rhs c
      then stream_loop cfg c rhs (size_col h c) 0 h
      else simd_kernel (\<lambda>old x. x) cfg c rhs h)"

subsection \<open>The selection of the kernel\<close>

definition assign :: "config \<Rightarrow> column \<Rightarrow> 'a::zero vector \<Rightarrow> 'a heap \<Rightarrow> 'a heap option" where
  "assign cfg c rhs h =
     (if IsSparseVector rhs then sparse_kernel (\<lambda>old x. x) c rhs h
      else if VectorizedAssign cfg then simd_assign cfg c rhs h
      else dense_kernel (\<lambda>old x. x) c rhs h)"

definition addAssign ::
  "config \<Rightarrow> column \<Rightarrow> 'a::{zero,plus} vector \<Rightarrow> 'a heap \<Rightarrow> 'a heap option" where
  "addAssign cfg c rhs h =
     (if IsSparseVector rhs then sparse_kernel (\<lambda>old x. old + x) c rhs h
      else if VectorizedAddAssign cfg then simd_kernel (\<lambda>old x. old + x) cfg c rhs h
      else dense_kernel (\<lambda>old x. old + x) c rhs h)"

definition subAssign ::
  "config \<Rightarrow> column \<Rightarrow> 'a::{zero,minus} vector \<Rightarrow> 'a heap \<Rightarrow> 'a heap option" where
  "subAssign cfg c rhs h =
     (if IsSparseVector rhs then sparse_kernel (\<lambda>old x. old - x) c rhs h
      else if VectorizedSubAssign cfg then simd_kernel (\<lambda>old x. old - x) cfg c rhs h
      else dense_kernel (\<lambda>old x. old - x) c rhs h)"

text \<open>
  \<open>column_values\<close> copies the elements of a column into a dense vector; it is the
  temporary \<open>tmp( serial( *this ) )\<close> of the sparse multiplication kernel and the
  temporary \<open>tmp( right )\<close> made of an aliasing right-hand side.
\<close>

function column_values :: "'a heap \<Rightarrow> column \<Rightarrow> nat \<Rightarrow> 'a list option" where
  "column_values h c i =
     (if i < size_col h c
      then (case subscript h c i of
              None \<Rightarrow> None
            | Some x \<Rightarrow>
                (case column_values h c (i + 1) of
                   None \<Rightarrow> None
                 | Some xs \<Rightarrow> Some (x # xs)))
      else Some [])"
  by pat_completeness auto
termination
  by (relation "measure (\<lambda>(h, c, i). size_col h c - i)") auto

text \<open>
  The sparse multiplication kernel: the column is copied, reset, and the products of
  the copied elements with the stored entries are written back.
\<close>

fun multAssign_loop ::
  "column \<Rightarrow> 'a::times list \<Rightarrow> (nat \<times> 'a) list \<Rightarrow> 'a heap \<Rightarrow> 'a heap option" where
  "multAssign_loop c tmp [] h = Some h"
| "multAssign_loop c tmp (e # es) h =
     (if fst e < length tmp
      then (case elem_write h (mat c) (fst e) (col c) (tmp ! fst e * snd e) of
              None \<Rightarrow> None
            | Some h1 \<Rightarrow> multAssign_loop c tmp es h1)
      else None)"

definition multAssign ::
  "config \<Rightarrow> column \<Rightarrow> 'a::{zero,times} vector \<Rightarrow> 'a heap \<Rightarrow> 'a heap option" where
  "multAssign cfg c rhs h =
     (if IsSparseVector rhs
      then (if size_col h c \<noteq> vec_size h rhs then None
            else (case column_values h c 0 of
                    None \<Rightarrow> None
                  | Some tmp \<Rightarrow>
                      (case reset_member True c h of
                         None \<Rightarrow> None
                       | Some h1 \<Rightarrow> multAssign_loop c tmp (entries rhs) h1)))
      else if VectorizedMultAssign cfg then simd_kernel (\<lambda>old x. old * x) cfg c rhs h
      else dense_kernel (\<lambda>old x. old * x) c rhs h)"

subsection \<open>The assignment operators\<close>

text \<open>
  An operator returns, throws, or runs into an access outside the matrix; in the first
  two cases the store is the one the operator leaves behind.
\<close>

datatype 'a result =
    is_Returns: Returns (final: "'a heap")
  | is_Throws: Throws (thrown: exn) (final: "'a heap")
  | Undefined

fun finish :: "'a heap option \<Rightarrow> 'a result" where
  "finish None = Undefined"
| "finish (Some h) = Returns h"

text \<open>Homogeneous assignment, \<open>operator=( const ElementType& rhs )\<close>.\<close>

function scalar_loop :: "column \<Rightarrow> 'a \<Rightarrow> nat \<Rightarrow> nat \<Rightarrow> 'a heap \<Rightarrow> 'a heap option" where
  "scalar_loop c rhs iend i h =
     (if i < iend
      then (case elem_write h (mat c) i (col c) rhs of
              None \<Rightarrow> None
            | Some h1 \<Rightarrow> scalar_loop c rhs iend (i + 1) h1)
      else Some h)"
  by pat_completeness auto
termination
  by (relation "measure (\<lambda>(c, rhs, iend, i, h). iend - i)") auto

definition op_assign_scalar :: "column \<Rightarrow> 'a \<Rightarrow> 'a heap \<Rightarrow> 'a result" where
  "op_assign_scalar c rhs h =
     (let ibegin = (if IsLower (category (h (mat c))) then col c else 0);
          iend = (if IsUpper (category (h (mat c))) then col c + 1 else size_col h c)
      in finish (scalar_loop c rhs iend ibegin h))"

text \<open>
  \<open>derestrict\<close> yields a view of the same column of the same matrix without the
  access restrictions of the matrix type; \<open>smpAssign\<close> and its siblings (declared
  outside this file) hand the transfer to the kernel of the left-hand side.
\<close>

definition derestrict :: "column \<Rightarrow> column" where
  "derestrict c = c"

text \<open>Copy assignment, \<open>operator=( const DenseColumn& rhs )\<close>.\<close>

definition op_assign_column ::
  "config \<Rightarrow> column \<Rightarrow> column \<Rightarrow> 'a::zero heap \<Rightarrow> 'a result" where
  "op_assign_column cfg c rhs h =
     (if this rhs = this c then Returns h
      else if size_col h c \<noteq> size_col h rhs
      then Throws (invalid_argument ''Column sizes do not match'') h
      else (case preservesInvariant h c (ColumnView rhs) of
              None \<Rightarrow> Undefined
            | Some False \<Rightarrow> Throws (invalid_argument ''Invalid assignment to restricted matrix'') h
            | Some True \<Rightarrow> finish (assign cfg (derestrict c) (ColumnView rhs) h)))"

text \<open>
  The temporary \<open>tmp( right )\<close> of the result type of the right-hand side. Only a
  column view can alias the matrix, and its result type is a dense vector.
\<close>

fun evaluate :: "'a heap \<Rightarrow> 'a vector \<Rightarrow> 'a vector option" where
  "evaluate h (ColumnView r) =
     (case column_values h r 0 of None \<Rightarrow> None | Some xs \<Rightarrow> Some (DynamicVector xs))"
| "evaluate h v = Some v"

text \<open>
  The vector forms \<open>operator=\<close>, \<open>operator+=\<close> and \<open>operator-=\<close>. The type \<open>Right\<close> is a
  reference for each of the three kinds of right-hand side, so the alias test is the
  run-time part \<open>right.canAlias( &matrix_ )\<close>.
\<close>

definition op_assign ::
  "config \<Rightarrow> column \<Rightarrow> 'a::zero vector \<Rightarrow> 'a heap \<Rightarrow> 'a result" where
  "op_assign cfg c rhs h =
     (if size_col h c \<noteq> vec_size h rhs
      then Throws (invalid_argument ''Vector sizes do not match'') h
      else (case preservesInvariant h c rhs of
              None \<Rightarrow> Undefined
            | Some False \<Rightarrow> Throws (invalid_argument ''Invalid assignment to restricted matrix'') h
            | Some True \<Rightarrow>
                (case (if IsSparseVector rhs then reset_member True c h else Some h) of
                   None \<Rightarrow> Undefined
                 | Some h1 \<Rightarrow>
                     if canAlias rhs (mat c)
                     then (case evaluate h1 rhs of
                             None \<Rightarrow> Undefined
                           | Some tmp \<Rightarrow> finish (assign cfg (derestrict c) tmp h1))
                     else finish (assign cfg (derestrict c) rhs h1))))"

definition op_add_assign ::
  "config \<Rightarrow> column \<Rightarrow> 'a::{zero,plus} vector \<Rightarrow> 'a heap \<Rightarrow> 'a result" where
  "op_add_assign cfg c rhs h =
     (if size_col h c \<noteq> vec_size h rhs
      then Throws (invalid_argument ''Vector sizes do not match'') h
      else (case preservesInvariant h c rhs of
              None \<Rightarrow> Undefined
            | Some False \<Rightarrow> Throws (invalid_argument ''Invalid assignment to restricted matrix'') h
            | Some True \<Rightarrow>
                if canAlias rhs (mat c)
                then (case evaluate h rhs of
                        None \<Rightarrow> Undefined
                      | Some tmp \<Rightarrow> finish (addAssign cfg (derestrict c) tmp h))
                else finish (addAssign cfg (derestrict c) rhs h)))"

definition op_sub_assign ::
  "config \<Rightarrow> column \<Rightarrow> 'a::{zero,minus} vector \<Rightarrow> 'a heap \<Rightarrow> 'a result" where
  "op_sub_assign cfg c rhs h =
     (if size_col h c \<noteq> vec_size h rhs
      then Throws (invalid_argument ''Vector sizes do not match'') h
      else (case preservesInvariant h c rhs of
              None \<Rightarrow> Undefined
            | Some False \<Rightarrow> Throws (invalid_argument ''Invalid assignment to restricted matrix'') h
            | Some True \<Rightarrow>
                if canAlias rhs (mat c)
                then (case evaluate h rhs of
                        None \<Rightarrow> Undefined
                      | Some tmp \<Rightarrow> finish (subAssign cfg (derestrict c) tmp h))
                else finish (subAssign cfg (derestrict c) rhs h)))"

text \<open>
  Modelled from the spec: the product expression \<open>*this * rhs\<close> is evaluated outside
  this file; the spec has the full component-wise product materialized into a
  temporary, a missing entry of a sparse factor acting as zero.
\<close>

function product_values :: "'a::{zero,times} heap \<Rightarrow> column \<Rightarrow> 'a vector \<Rightarrow> nat \<Rightarrow> 'a list option" where
  "product_values h c rhs i =
     (if i < size_col h c
      then (case subscript h c i of
              None \<Rightarrow> None
            | Some x \<Rightarrow>
        (case vec_at h rhs i of
              None \<Rightarrow> None
            | Some y \<Rightarrow>
        (case product_values h c rhs (i + 1) of
              None \<Rightarrow> None
            | Some zs \<Rightarrow> Some (x * y # zs))))
      else Some [])"
  by pat_completeness auto
termination
  by (relation "measure (\<lambda>(h, c, rhs, i). size_col h c - i)") auto

text \<open>The vector form of \<open>operator*=\<close>: the size check is its only check.\<close>

definition op_mult_assign ::
  "config \<Rightarrow> column \<Rightarrow> 'a::{zero,times} vector \<Rightarrow> 'a heap \<Rightarrow> 'a result" where
  "op_mult_assign cfg c rhs h =
     (if size_col h c \<noteq> vec_size h rhs
      then Throws (invalid_argument ''Vector sizes do not match'') h
      else if canAlias rhs (mat c) \<or> IsSparseVector rhs
      then (case product_values h c rhs 0 of
              None \<Rightarrow> Undefined
            | Some tmp \<Rightarrow> finish (assign cfg (derestrict c) (DynamicVector tmp) h))
      else finish (multAssign cfg (derestrict c) rhs h))"

subsection \<open>A right-hand side of another element type\<close>

text \<open>
  The vector operators are templates in the type of the right-hand side, and the
  element type \<open>Other\<close> of a dense vector need not be the element type of the matrix.
  Then \<open>IsSame<ElementType,typename VT::ElementType>\<close> fails, so the default kernel is
  selected, and its statement \<open>matrix_(i,col_) = (~rhs)[i]\<close> converts the element to the
  element type of the matrix; \<open>conv\<close> is that conversion. A vector that owns its
  elements aliases nothing. The checker tests the elements as they are in the vector,
  and of the matrix it reads the category and the number of rows only, which
  \<open>shape_of\<close> keeps.
\<close>

definition shape_of :: "'a heap \<Rightarrow> 'b::zero heap" where
  "shape_of h a =
     \<lparr>rows = rows (h a), columns = columns (h a), category = category (h a),
      elems = (\<lambda>i j. 0)\<rparr>"




subsection \<open>The free functions\<close>

definition reset :: "bool \<Rightarrow> column \<Rightarrow> 'a::zero heap \<Rightarrow> 'a heap option" where
  "reset SO column h = reset_member SO column h"

definition clear :: "bool \<Rightarrow> column \<Rightarrow> 'a::zero heap \<Rightarrow> 'a heap option" where
  "clear SO column h = reset_member SO column h"

function isDefault_loop :: "'a::zero heap \<Rightarrow> column \<Rightarrow> nat \<Rightarrow> bool option" where
  "isDefault_loop h column i =
     (if i < size_col h column
      then (case subscript h column i of
              None \<Rightarrow> None
            | Some x \<Rightarrow> if \<not> isDefault x then Some False else isDefault_loop h column (i + 1))
      else Some True)"
  by pat_completeness auto
termination
  by (relation "measure (\<lambda>(h, column, i). size_col h column - i)") auto

definition isDefault_column :: "'a::zero heap \<Rightarrow> column \<Rightarrow> bool option" where
  "isDefault_column h column = isDefault_loop h column 0"


subsection \<open>Auxiliary notions for the proofs\<close>

text \<open>
  \<open>modify_column h c g\<close> is the store in which element \<open>i\<close> of the column of \<open>c\<close>
  has become \<open>g i old\<close> and nothing else has changed. The loops are characterised
  by it.
\<close>

definition modify_column :: "'a heap \<Rightarrow> column \<Rightarrow> (nat \<Rightarrow> 'a \<Rightarrow> 'a) \<Rightarrow> 'a heap" where
  "modify_column h c g =
     h(mat c := (h (mat c))\<lparr>elems :=
         (\<lambda>i k. if k = col c then g i (elems (h (mat c)) i k) else elems (h (mat c)) i k)\<rparr>)"

text \<open>The element \<open>i\<close> of a right-hand side, where it is in range.\<close>

fun value_at :: "'a::zero heap \<Rightarrow> 'a vector \<Rightarrow> nat \<Rightarrow> 'a" where
  "value_at h (DynamicVector xs) i = xs ! i"
| "value_at h (CompressedVector n es) i = (case map_of es i of None \<Rightarrow> 0 | Some x \<Rightarrow> x)"
| "value_at h (ColumnView r) i = elems (h (mat r)) i (col r)"

text \<open>
  The element \<open>i\<close> of a right-hand side as a block load sees it: beyond the size of a
  vector that owns its elements lies its padding.
\<close>

fun padded_at :: "'a::zero heap \<Rightarrow> 'a vector \<Rightarrow> nat \<Rightarrow> 'a" where
  "padded_at h (DynamicVector xs) i = (if i < length xs then xs ! i else 0)"
| "padded_at h (CompressedVector n es) i = (case map_of es i of None \<Rightarrow> 0 | Some x \<Rightarrow> x)"
| "padded_at h (ColumnView r) i = elems (h (mat r)) i (col r)"

text \<open>The index at which a loop \<open>for( ; i<n; i+=IT::size )\<close> stops.\<close>

function block_end :: "config \<Rightarrow> nat \<Rightarrow> nat \<Rightarrow> nat" where
  "block_end cfg n i = (if i < n then block_end cfg n (i + IT_size cfg) else i)"
  by pat_completeness auto
termination
  by (relation "measure (\<lambda>(cfg, n, i). n - i)") (auto simp add: IT_size_def intro!: diff_less_mono2)

text \<open>
  The store after a transfer of the elements of a dense right-hand side at the indices
  from \<open>lo\<close> up to, and without, \<open>hi\<close> into the column of \<open>c\<close>.
\<close>

definition transferred ::
  "('a \<Rightarrow> 'a \<Rightarrow> 'a) \<Rightarrow> 'a::zero heap \<Rightarrow> column \<Rightarrow> 'a vector \<Rightarrow> nat \<Rightarrow> nat \<Rightarrow> 'a heap" where
  "transferred f h c rhs lo hi =
     modify_column h c (\<lambda>r old. if lo \<le> r \<and> r < hi then f old (padded_at h rhs r) else old)"

text \<open>A right-hand side that does not read the matrix behind the view \<open>c\<close>.\<close>

fun independent :: "'a vector \<Rightarrow> column \<Rightarrow> bool" where
  "independent (ColumnView r) c = (mat r \<noteq> mat c)"
| "independent _ c = True"

text \<open>A right-hand side that is a view is a view on a column of its matrix.\<close>

fun valid_vector :: "'a heap \<Rightarrow> 'a vector \<Rightarrow> bool" where
  "valid_vector h (ColumnView r) = (col r < columns (h (mat r)))"
| "valid_vector h _ = True"

text \<open>
  The stored entries of a sparse vector have increasing indices below its size.
\<close>

fun valid_entries :: "nat \<Rightarrow> (nat \<times> 'a) list \<Rightarrow> bool" where
  "valid_entries n es = (sorted_wrt (<) (map fst es) \<and> list_all (\<lambda>e. fst e < n) es)"

subsection \<open>The index range of the homogeneous assignment, as the spec words it\<close>

text \<open>
  The spec: for a lower triangular matrix the indices \<open>[col, size)\<close>, for an upper
  triangular matrix \<open>[0, col]\<close>, for a diagonal matrix the single index \<open>col\<close>, for an
  unconstrained matrix the whole range \<open>[0, size)\<close>.
\<close>

fun spec_assigned_range :: "category \<Rightarrow> nat \<Rightarrow> nat \<Rightarrow> nat \<Rightarrow> bool" where
  "spec_assigned_range LowerTriangular c n i = (c \<le> i \<and> i < n)"
| "spec_assigned_range UpperTriangular c n i = (i \<le> c)"
| "spec_assigned_range Diagonal c n i = (i = c)"
| "spec_assigned_range Unconstrained c n i = (i < n)"

subsection \<open>Example data\<close>

text \<open>
  A dense matrix given by its rows, and a store of \<open>int\<close> matrices: a lower
  triangular, an upper triangular and a diagonal matrix of three rows and columns at the
  addresses 0, 1 and 2, a general matrix of four rows and columns at 3, and a general
  matrix of two rows and three columns everywhere else.
\<close>

definition dense_matrix :: "category \<Rightarrow> 'a list list \<Rightarrow> 'a matrix" where
  "dense_matrix k rs =
     \<lparr>rows = length rs, columns = length (hd rs), category = k, elems = (\<lambda>i j. rs ! i ! j)\<rparr>"

definition example_heap :: "int heap" where
  "example_heap a =
     (if a = 0 then dense_matrix LowerTriangular [[1, 0, 0], [2, 3, 0], [4, 5, 6]]
      else if a = 1 then dense_matrix UpperTriangular [[1, 2, 3], [0, 4, 5], [0, 0, 6]]
      else if a = 2 then dense_matrix Diagonal [[1, 0, 0], [0, 3, 0], [0, 0, 6]]
      else if a = 3 then dense_matrix Unconstrained
                           [[1, 2, 3, 4], [5, 6, 7, 8], [9, 10, 11, 12], [13, 14, 15, 16]]
      else dense_matrix Unconstrained [[1, 2, 3], [4, 5, 6]])"

text \<open>
  Two configurations: one without intrinsic kernels, and one with blocks of two
  elements of four bytes, all intrinsic operations, and streaming with a cache of three
  megabytes. A store of matrices of 32-bit elements: a general matrix of two rows and
  columns at every address.
\<close>

definition scalar_config :: config where
  "scalar_config =
     \<lparr>vectorizable = False, addition = False, subtraction = False, multiplication = False,
      size_log2 = 0, useStreaming = False, cacheSize = 3145728, sizeof_ElementType = 4\<rparr>"

definition simd_config :: config where
  "simd_config =
     \<lparr>vectorizable = True, addition = True, subtraction = True, multiplication = True,
      size_log2 = 1, useStreaming = True, cacheSize = 3145728, sizeof_ElementType = 4\<rparr>"

definition int_heap :: "32 word heap" where
  "int_heap a = dense_matrix Unconstrained [[1, 2], [3, 4]]"

declare dense_range.simps [simp del]
declare stream_loop.simps [simp del]
declare simd_loop4.simps [simp del]
declare simd_loop1.simps [simp del]
declare block_end.simps [simp del]
declare reset_loop.simps [simp del]
declare dense_loop.simps [simp del]
declare column_values.simps [simp del]
declare scalar_loop.simps [simp del]
declare product_values.simps [simp del]
declare isDefault_loop.simps [simp del]

section \<open>Properties\<close>

subsection \<open>The store and the loops\<close>

lemma modify_column_shape [simp]:
  "rows (modify_column h c g b) = rows (h b)"
  "columns (modify_column h c g b) = columns (h b)"
  "category (modify_column h c g b) = category (h b)"
  by (simp_all add: modify_column_def)

lemma modify_column_size [simp]: "size_col (modify_column h c g) r = size_col h r"
  by (simp add: size_col_def)

lemma modify_column_elems:
  "elems (modify_column h c g b) i k =
     (if b = mat c \<and> k = col c then g i (elems (h b) i k) else elems (h b) i k)"
  by (simp add: modify_column_def)

lemma modify_column_id: "modify_column h c (\<lambda>i old. old) = h"
  by (simp add: modify_column_def)

lemma modify_column_twice:
  "modify_column (modify_column h c g1) c g2 = modify_column h c (\<lambda>i old. g2 i (g1 i old))"
  by (simp add: modify_column_def fun_eq_iff)

lemma elem_write_eq:
  "elem_write h (mat c) i (col c) x =
     (if i < rows (h (mat c)) \<and> col c < columns (h (mat c))
      then Some (modify_column h c (\<lambda>r old. if r = i then x else old)) else None)"
  by (auto simp add: elem_write_def put_def modify_column_def fun_eq_iff intro!: matrix.equality)

lemma elem_modify_eq:
  "elem_modify f h c i x =
     (if i < rows (h (mat c)) \<and> col c < columns (h (mat c))
      then Some (modify_column h c (\<lambda>r old. if r = i then f old x else old)) else None)"
  by (auto simp add: elem_modify_def elem_read_def get_def elem_write_def put_def modify_column_def fun_eq_iff intro!: matrix.equality)

lemma subscript_eq:
  "subscript h c i =
     (if i < rows (h (mat c)) \<and> col c < columns (h (mat c))
      then Some (elems (h (mat c)) i (col c)) else None)"
  by (simp add: subscript_def size_col_def elem_read_def get_def)

lemma reset_loop_eq:
  "col c < columns (h (mat c)) \<Longrightarrow> n \<le> rows (h (mat c)) \<Longrightarrow>
   reset_loop c n i h =
     Some (modify_column h c (\<lambda>r old. if i \<le> r \<and> r < n then 0 else old))"
proof (induction c n i h rule: reset_loop.induct)
  case (1 c n i h)
  show ?case
  proof (cases "i < n")
    case False
    then have "(\<lambda>r old. if i \<le> r \<and> r < n then 0 else old) = (\<lambda>r (old::'a). old)"
      by (auto simp add: fun_eq_iff)
    with False show ?thesis
      by (simp add: reset_loop.simps [of c n i h] modify_column_id)
  next
    case True
    let ?h1 = "modify_column h c (\<lambda>r old. if r = i then 0 else old)"
    have w: "elem_write h (mat c) i (col c) 0 = Some ?h1"
      using True 1 by (simp add: elem_write_eq)
    have "reset_loop c n (i + 1) ?h1 =
        Some (modify_column ?h1 c (\<lambda>r old. if i + 1 \<le> r \<and> r < n then 0 else old))"
      using 1 True w by simp
    moreover have "(\<lambda>r old. if i + 1 \<le> r \<and> r < n then 0 else if r = i then 0 else old)
        = (\<lambda>r (old::'a). if i \<le> r \<and> r < n then 0 else old)"
      using True by (auto simp add: fun_eq_iff)
    ultimately show ?thesis
      using True w by (simp add: reset_loop.simps [of c n i h] modify_column_twice)
  qed
qed

lemma matrix_reset_eq:
  "col c < columns (h (mat c)) \<Longrightarrow>
   (case matrix_reset (h (mat c)) (col c) of None \<Rightarrow> None | Some m \<Rightarrow> Some (h(mat c := m))) =
     Some (modify_column h c (\<lambda>r old. if r < rows (h (mat c)) then 0 else old))"
  by (auto simp add: matrix_reset_def modify_column_def fun_eq_iff intro!: matrix.equality)

lemma reset_member_eq:
  "col c < columns (h (mat c)) \<Longrightarrow>
   reset_member SO c h =
     Some (modify_column h c (\<lambda>r old. if r < size_col h c then 0 else old))"
  by (cases SO) (simp_all add: reset_member_def matrix_reset_eq reset_loop_eq size_col_def)

lemma isDefault_loop_eq:
  "col c < columns (h (mat c)) \<Longrightarrow>
   isDefault_loop h c i =
     Some (\<forall>r. i \<le> r \<and> r < size_col h c \<longrightarrow> elems (h (mat c)) r (col c) = 0)"
proof (induction h c i rule: isDefault_loop.induct)
  case (1 h c i)
  show ?case
  proof (cases "i < size_col h c")
    case False
    then show ?thesis by (auto simp add: isDefault_loop.simps [of h c i])
  next
    case True
    then have s: "subscript h c i = Some (elems (h (mat c)) i (col c))"
      using 1 by (simp add: subscript_eq size_col_def)
    show ?thesis
    proof (cases "elems (h (mat c)) i (col c) = 0")
      case False
      with True s show ?thesis
        by (auto simp add: isDefault_loop.simps [of h c i] isDefault_def)
    next
      case z: True
      have "isDefault_loop h c (i + 1) =
          Some (\<forall>r. i + 1 \<le> r \<and> r < size_col h c \<longrightarrow> elems (h (mat c)) r (col c) = 0)"
        using 1 True s z by (simp add: isDefault_def)
      moreover have "(\<forall>r. i + 1 \<le> r \<and> r < size_col h c \<longrightarrow> elems (h (mat c)) r (col c) = 0)
          = (\<forall>r. i \<le> r \<and> r < size_col h c \<longrightarrow> elems (h (mat c)) r (col c) = 0)"
        using z by (metis Suc_eq_plus1 Suc_leI le_neq_implies_less Suc_leD)
      ultimately show ?thesis
        using True s z by (simp add: isDefault_loop.simps [of h c i] isDefault_def)
    qed
  qed
qed

lemma example_heap_simps [simp]:
  "rows (example_heap 0) = 3" "columns (example_heap 0) = 3" "category (example_heap 0) = LowerTriangular"
  "rows (example_heap 1) = 3" "columns (example_heap 1) = 3" "category (example_heap 1) = UpperTriangular"
  "rows (example_heap 2) = 3" "columns (example_heap 2) = 3" "category (example_heap 2) = Diagonal"
  "rows (example_heap 3) = 4" "columns (example_heap 3) = 4" "category (example_heap 3) = Unconstrained"
  "rows (example_heap 4) = 2" "columns (example_heap 4) = 3" "category (example_heap 4) = Unconstrained"
  by (simp_all add: example_heap_def dense_matrix_def)

subsection \<open>Construction\<close>

text \<open>
  C3. Constructing a view fails with the invalid-index exception exactly when the index
  is not below the number of columns of the matrix; for an index below it the
  constructor returns a view, and the size of the view is the number of rows of the
  matrix.
\<close>

theorem construct_checks_index:
  "((\<exists>e. DenseColumn h self m index = Inl e) = (columns (h m) \<le> index))
   \<and> (columns (h m) \<le> index \<longrightarrow>
        DenseColumn h self m index = Inl (invalid_argument ''Invalid column access index''))
   \<and> (index < columns (h m) \<longrightarrow>
        (\<exists>c. DenseColumn h self m index = Inr c \<and> mat c = m \<and> col c = index
           \<and> size_col h c = rows (h m)))"
  by (auto simp add: DenseColumn_def size_col_def)

theorem construct_checks_index_witness:
  "DenseColumn example_heap 10 4 3 = Inl (invalid_argument ''Invalid column access index'')
   \<and> (\<exists>c. DenseColumn example_heap 10 4 2 = Inr c \<and> mat c = 4 \<and> col c = 2
         \<and> size_col example_heap c = 2)"
  using construct_checks_index [where h = example_heap and self = 10 and m = 4 and index = 3]
    construct_checks_index [where h = example_heap and self = 10 and m = 4 and index = 2]
  by simp

subsection \<open>Validation\<close>

text \<open>
  C4. When the sizes of the left-hand side and of the right-hand side differ, each of
  the vector operators \<open>=\<close>, \<open>+=\<close>, \<open>-=\<close>, \<open>*=\<close> and the copy assignment from another
  column throws the size exception, and the store at the throw is the store the operator
  started from. (For the copy assignment the two views are distinct objects whenever
  their addresses differ: a view of another size is not the left-hand side itself.)
\<close>

theorem size_mismatch_throws_unmodified:
  fixes h :: "'a::{zero,plus,minus,times} heap"
  shows
  "(size_col h c \<noteq> vec_size h rhs \<longrightarrow>
      op_assign cfg c rhs h = Throws (invalid_argument ''Vector sizes do not match'') h
    \<and> op_add_assign cfg c rhs h = Throws (invalid_argument ''Vector sizes do not match'') h
    \<and> op_sub_assign cfg c rhs h = Throws (invalid_argument ''Vector sizes do not match'') h
    \<and> op_mult_assign cfg c rhs h = Throws (invalid_argument ''Vector sizes do not match'') h)
   \<and> (size_col h c \<noteq> size_col h r \<and> (this r = this c \<longrightarrow> r = c) \<longrightarrow>
      op_assign_column cfg c r h = Throws (invalid_argument ''Column sizes do not match'') h)"
  by (auto simp add: op_assign_def op_add_assign_def op_sub_assign_def op_mult_assign_def
      op_assign_column_def)

theorem size_mismatch_throws_unmodified_witness:
  "op_assign simd_config \<lparr>this = 10, mat = 3, col = 2\<rparr> (DynamicVector [1, 2, 3]) example_heap
     = Throws (invalid_argument ''Vector sizes do not match'') example_heap
   \<and> op_mult_assign scalar_config \<lparr>this = 10, mat = 3, col = 2\<rparr> (CompressedVector 5 [(2, 7)])
       example_heap
     = Throws (invalid_argument ''Vector sizes do not match'') example_heap
   \<and> op_assign_column simd_config \<lparr>this = 10, mat = 3, col = 2\<rparr> \<lparr>this = 11, mat = 4, col = 2\<rparr>
       example_heap
     = Throws (invalid_argument ''Column sizes do not match'') example_heap"
  using size_mismatch_throws_unmodified
      [where h = example_heap and cfg = simd_config and c = "\<lparr>this = 10, mat = 3, col = 2\<rparr>"
         and rhs = "DynamicVector [1, 2, 3]" and r = "\<lparr>this = 11, mat = 4, col = 2\<rparr>"]
    size_mismatch_throws_unmodified
      [where h = example_heap and cfg = scalar_config and c = "\<lparr>this = 10, mat = 3, col = 2\<rparr>"
         and rhs = "CompressedVector 5 [(2, 7)]" and r = "\<lparr>this = 11, mat = 4, col = 2\<rparr>"]
  by (simp add: size_col_def)

text \<open>
  C9. Assigning a view to itself returns at once: the store is the one before the
  assignment, and nothing is thrown.
\<close>

theorem self_assignment_is_noop:
  "op_assign_column cfg c c h = Returns h"
  by (simp add: op_assign_column_def)

theorem self_assignment_is_noop_witness:
  "op_assign_column simd_config \<lparr>this = 10, mat = 0, col = 0\<rparr> \<lparr>this = 10, mat = 0, col = 0\<rparr>
     example_heap = Returns example_heap"
  using self_assignment_is_noop [of simd_config "\<lparr>this = 10, mat = 0, col = 0\<rparr>" example_heap] .

lemma scalar_loop_eq:
  "col c < columns (h (mat c)) \<Longrightarrow> iend \<le> rows (h (mat c)) \<Longrightarrow>
   scalar_loop c x iend i h =
     Some (modify_column h c (\<lambda>r old. if i \<le> r \<and> r < iend then x else old))"
proof (induction c x iend i h rule: scalar_loop.induct)
  case (1 c x iend i h)
  show ?case
  proof (cases "i < iend")
    case False
    then have "(\<lambda>r old. if i \<le> r \<and> r < iend then x else old) = (\<lambda>r (old::'a). old)"
      by (auto simp add: fun_eq_iff)
    with False show ?thesis
      by (simp add: scalar_loop.simps [of c x iend i h] modify_column_id)
  next
    case True
    let ?h1 = "modify_column h c (\<lambda>r old. if r = i then x else old)"
    have w: "elem_write h (mat c) i (col c) x = Some ?h1"
      using True 1 by (simp add: elem_write_eq)
    have "scalar_loop c x iend (i + 1) ?h1 =
        Some (modify_column ?h1 c (\<lambda>r old. if i + 1 \<le> r \<and> r < iend then x else old))"
      using 1 True w by simp
    moreover have "(\<lambda>r old. if i + 1 \<le> r \<and> r < iend then x else if r = i then x else old)
        = (\<lambda>r (old::'a). if i \<le> r \<and> r < iend then x else old)"
      using True by (auto simp add: fun_eq_iff)
    ultimately show ?thesis
      using True w by (simp add: scalar_loop.simps [of c x iend i h] modify_column_twice)
  qed
qed

lemma reset_member_default:
  assumes "col c < columns (h (mat c))"
  shows "\<exists>h'. reset_member SO c h = Some h'
     \<and> (\<forall>i < size_col h' c. subscript h' c i = Some 0)
     \<and> isDefault_column h' c = Some True"
proof -
  let ?h' = "modify_column h c (\<lambda>r old. if r < size_col h c then 0 else old)"
  have r: "reset_member SO c h = Some ?h'"
    using assms by (rule reset_member_eq)
  have c': "col c < columns (?h' (mat c))"
    using assms by simp
  have e: "\<forall>i < size_col ?h' c. elems (?h' (mat c)) i (col c) = 0"
    by (simp add: modify_column_elems)
  have s: "\<forall>i < size_col ?h' c. subscript ?h' c i = Some 0"
    using assms by (simp add: subscript_eq modify_column_elems size_col_def)
  have "isDefault_loop ?h' c 0 =
      Some (\<forall>r. 0 \<le> r \<and> r < size_col ?h' c \<longrightarrow> elems (?h' (mat c)) r (col c) = 0)"
    using c' by (rule isDefault_loop_eq)
  then have "isDefault_column ?h' c = Some True"
    unfolding isDefault_column_def using e by simp
  with r s show ?thesis by blast
qed

subsection \<open>Homogeneous assignment\<close>

text \<open>
  C5. The homogeneous assignment of a scalar returns (it throws nothing) and assigns
  the scalar to the elements of the column whose index lies in the range the spec gives
  for the category of the matrix: \<open>[col, size)\<close> for a lower triangular, \<open>[0, col]\<close>
  for an upper triangular, the index \<open>col\<close> alone for a diagonal and \<open>[0, size)\<close>
  for an unconstrained matrix. Every other element of every matrix keeps its value, and
  no matrix changes its shape. The view is a view on a column of its matrix, and the
  column index of a view on an upper triangular or diagonal matrix, which is square, is
  below the number of rows.
\<close>

theorem scalar_assignment_range:
  assumes "col c < columns (h (mat c))"
    and "IsUpper (category (h (mat c))) \<longrightarrow> col c < rows (h (mat c))"
  shows "\<exists>h'. op_assign_scalar c x h = Returns h'
     \<and> (\<forall>b i j. elems (h' b) i j =
          (if b = mat c \<and> j = col c
              \<and> spec_assigned_range (category (h (mat c))) (col c) (size_col h c) i
           then x else elems (h b) i j))
     \<and> (\<forall>b. rows (h' b) = rows (h b) \<and> columns (h' b) = columns (h b)
          \<and> category (h' b) = category (h b))"
proof -
  let ?k = "category (h (mat c))"
  let ?ibegin = "if IsLower ?k then col c else 0"
  let ?iend = "if IsUpper ?k then col c + 1 else size_col h c"
  let ?h' = "modify_column h c (\<lambda>r old. if ?ibegin \<le> r \<and> r < ?iend then x else old)"
  have b: "?iend \<le> rows (h (mat c))"
    using assms(2) by (auto simp add: size_col_def)
  have l: "scalar_loop c x ?iend ?ibegin h = Some ?h'"
    using assms(1) b by (rule scalar_loop_eq)
  have r: "op_assign_scalar c x h = Returns ?h'"
    unfolding op_assign_scalar_def Let_def l by simp
  have rng: "(?ibegin \<le> i \<and> i < ?iend) = spec_assigned_range ?k (col c) (size_col h c) i" for i
    by (cases ?k) auto
  have "\<forall>b i j. elems (?h' b) i j =
          (if b = mat c \<and> j = col c \<and> spec_assigned_range ?k (col c) (size_col h c) i
           then x else elems (h b) i j)"
    unfolding modify_column_elems rng by simp
  moreover have "\<forall>b. rows (?h' b) = rows (h b) \<and> columns (?h' b) = columns (h b)
          \<and> category (?h' b) = category (h b)"
    by simp
  ultimately show ?thesis using r by blast
qed

theorem scalar_assignment_range_witness:
  "\<exists>h'. op_assign_scalar \<lparr>this = 10, mat = 0, col = 1\<rparr> 7 example_heap = Returns h'
     \<and> elems (h' 0) 0 1 = 0 \<and> elems (h' 0) 1 1 = 7 \<and> elems (h' 0) 2 1 = 7
     \<and> elems (h' 0) 2 0 = 4"
proof -
  obtain h' where r: "op_assign_scalar \<lparr>this = 10, mat = 0, col = 1\<rparr> 7 example_heap = Returns h'"
    and e: "\<forall>b i j. elems (h' b) i j =
          (if b = mat \<lparr>this = 10, mat = 0, col = 1\<rparr> \<and> j = col \<lparr>this = 10, mat = 0, col = 1\<rparr>
              \<and> spec_assigned_range (category (example_heap (mat \<lparr>this = 10, mat = 0, col = 1\<rparr>)))
                   (col \<lparr>this = 10, mat = 0, col = 1\<rparr>)
                   (size_col example_heap \<lparr>this = 10, mat = 0, col = 1\<rparr>) i
           then 7 else elems (example_heap b) i j)"
    using scalar_assignment_range [where h = example_heap
        and c = "\<lparr>this = 10, mat = 0, col = 1\<rparr>" and x = 7]
    by auto
  have "elems (h' 0) 0 1 = 0" "elems (h' 0) 1 1 = 7" "elems (h' 0) 2 1 = 7" "elems (h' 0) 2 0 = 4"
    unfolding e [rule_format] by (simp_all add: size_col_def example_heap_def dense_matrix_def)
  with r show ?thesis by blast
qed

subsection \<open>Reset and clear\<close>

text \<open>
  C8. For a view on a column of its matrix, \<open>reset\<close> returns; afterwards every element
  of the column is the default value and \<open>isDefault\<close> of the view is true. This holds
  for the view on a column-major matrix, which resets through the matrix, and for the
  view on a general row-major matrix, which clears the elements in a loop.
\<close>

theorem reset_then_isDefault:
  assumes "col c < columns (h (mat c))"
  shows "\<exists>h'. reset SO c h = Some h'
     \<and> (\<forall>i < size_col h' c. subscript h' c i = Some 0)
     \<and> isDefault_column h' c = Some True"
  unfolding reset_def using assms by (rule reset_member_default)

theorem reset_then_isDefault_witness:
  "\<exists>h'. reset True \<lparr>this = 10, mat = 3, col = 2\<rparr> example_heap = Some h'
     \<and> subscript h' \<lparr>this = 10, mat = 3, col = 2\<rparr> 0 = Some 0
     \<and> subscript h' \<lparr>this = 10, mat = 3, col = 2\<rparr> 3 = Some 0
     \<and> isDefault_column h' \<lparr>this = 10, mat = 3, col = 2\<rparr> = Some True"
proof -
  obtain h' where r: "reset True \<lparr>this = 10, mat = 3, col = 2\<rparr> example_heap = Some h'"
    and s: "\<forall>i < size_col h' \<lparr>this = 10, mat = 3, col = 2\<rparr>. subscript h' \<lparr>this = 10, mat = 3, col = 2\<rparr> i = Some 0"
    and d: "isDefault_column h' \<lparr>this = 10, mat = 3, col = 2\<rparr> = Some True"
    using reset_then_isDefault [where h = example_heap
        and c = "\<lparr>this = 10, mat = 3, col = 2\<rparr>" and SO = True]
    by auto
  have "size_col h' \<lparr>this = 10, mat = 3, col = 2\<rparr> = 4"
    using r by (auto simp add: reset_def reset_member_def matrix_reset_def size_col_def)
  with s have "subscript h' \<lparr>this = 10, mat = 3, col = 2\<rparr> 0 = Some 0"
    "subscript h' \<lparr>this = 10, mat = 3, col = 2\<rparr> 3 = Some 0"
    by simp_all
  with r d show ?thesis by blast
qed

text \<open>
  C10. \<open>clear\<close> of a view is \<open>reset\<close> of the view: both call the member \<open>reset\<close>. So
  for a view on a column of its matrix \<open>clear\<close> returns, every element of the column is
  the default value afterwards and \<open>isDefault\<close> of the view is true.
\<close>

theorem clear_is_reset:
  "clear SO c h = reset SO c h
   \<and> (col c < columns (h (mat c)) \<longrightarrow>
        (\<exists>h'. clear SO c h = Some h'
           \<and> (\<forall>i < size_col h' c. subscript h' c i = Some 0)
           \<and> isDefault_column h' c = Some True))"
  unfolding clear_def reset_def using reset_member_default [of c h SO] by simp

theorem clear_is_reset_witness:
  "clear False \<lparr>this = 10, mat = 4, col = 1\<rparr> example_heap
     = reset False \<lparr>this = 10, mat = 4, col = 1\<rparr> example_heap
   \<and> (\<exists>h'. clear False \<lparr>this = 10, mat = 4, col = 1\<rparr> example_heap = Some h'
        \<and> isDefault_column h' \<lparr>this = 10, mat = 4, col = 1\<rparr> = Some True)"
proof -
  have c: "col \<lparr>this = 10, mat = 4, col = 1\<rparr> < columns (example_heap (mat \<lparr>this = 10, mat = 4, col = 1\<rparr>))"
    by simp
  show ?thesis
    using clear_is_reset [where h = example_heap
        and c = "\<lparr>this = 10, mat = 4, col = 1\<rparr>" and SO = False] c
    by blast
qed

lemma vec_at_value:
  "valid_vector h rhs \<Longrightarrow> i < vec_size h rhs \<Longrightarrow> vec_at h rhs i = Some (value_at h rhs i)"
  by (cases rhs) (simp_all add: subscript_eq size_col_def)

lemma independent_modify [simp]:
  "independent rhs c \<Longrightarrow> value_at (modify_column h c g) rhs i = value_at h rhs i"
  by (cases rhs) (simp_all add: modify_column_elems)

lemma vec_size_modify [simp]: "vec_size (modify_column h c g) rhs = vec_size h rhs"
  by (cases rhs) simp_all

lemma valid_vector_modify [simp]: "valid_vector (modify_column h c g) rhs = valid_vector h rhs"
  by (cases rhs) simp_all

lemma modify_column_cong:
  assumes "\<And>r old. g r old = g' r old"
  shows "modify_column h c g = modify_column h c g'"
proof -
  have "g = g'" using assms by (intro ext)
  then show ?thesis by simp
qed

lemma dense_loop_eq:
  "independent rhs c \<Longrightarrow> valid_vector h rhs \<Longrightarrow> col c < columns (h (mat c)) \<Longrightarrow>
   ipos \<le> vec_size h rhs \<Longrightarrow> vec_size h rhs = rows (h (mat c)) \<Longrightarrow> (ipos - i) mod 2 = 0 \<Longrightarrow>
   dense_loop f c rhs ipos i h =
     Some (modify_column h c (\<lambda>r old. if i \<le> r \<and> r < ipos then f old (value_at h rhs r) else old))"
proof (induction f c rhs ipos i h rule: dense_loop.induct)
  case (1 f c rhs ipos i h)
  show ?case
  proof (cases "i < ipos")
    case False
    then have "(\<lambda>r old. if i \<le> r \<and> r < ipos then f old (value_at h rhs r) else old)
        = (\<lambda>r (old::'a). old)"
      by (auto simp add: fun_eq_iff)
    with False show ?thesis
      by (simp add: dense_loop.simps [of f c rhs ipos i h] modify_column_id)
  next
    case True
    with "1.prems" have i1: "i + 1 < ipos" and ev: "(ipos - (i + 2)) mod 2 = 0"
      by presburger+
    let ?x = "value_at h rhs i"
    let ?h1 = "modify_column h c (\<lambda>r old. if r = i then f old ?x else old)"
    let ?y = "value_at h rhs (i + 1)"
    let ?h2 = "modify_column ?h1 c (\<lambda>r old. if r = i + 1 then f old ?y else old)"
    have x: "vec_at h rhs i = Some ?x"
      using "1.prems" True by (simp add: vec_at_value)
    have m1: "elem_modify f h c i ?x = Some ?h1"
      using "1.prems" True by (simp add: elem_modify_eq)
    have y: "vec_at ?h1 rhs (i + 1) = Some ?y"
      using "1.prems" i1 vec_at_value [of ?h1 rhs "i + 1"] by simp
    have m2: "elem_modify f ?h1 c (i + 1) ?y = Some ?h2"
      using "1.prems" i1 by (simp add: elem_modify_eq cong: if_cong)
    have "dense_loop f c rhs ipos (i + 2) ?h2 =
        Some (modify_column ?h2 c
          (\<lambda>r old. if i + 2 \<le> r \<and> r < ipos then f old (value_at ?h2 rhs r) else old))"
      using "1.IH" [OF True x m1 y m2] "1.prems" ev by simp
    moreover have "modify_column ?h2 c
          (\<lambda>r old. if i + 2 \<le> r \<and> r < ipos then f old (value_at ?h2 rhs r) else old)
        = modify_column h c (\<lambda>r old. if i \<le> r \<and> r < ipos then f old (value_at h rhs r) else old)"
      unfolding modify_column_twice
      using "1.prems"(1) i1 by (intro modify_column_cong) auto
    ultimately show ?thesis
      using True x m1 y m2 by (simp add: dense_loop.simps [of f c rhs ipos i h])
  qed
qed

lemma dense_kernel_eq:
  assumes "independent rhs c" and "valid_vector h rhs" and "col c < columns (h (mat c))"
    and "size_col h c = vec_size h rhs"
  shows "dense_kernel f c rhs h =
     Some (modify_column h c (\<lambda>r old. if r < vec_size h rhs then f old (value_at h rhs r) else old))"
proof -
  let ?n = "vec_size h rhs"
  let ?ipos = "?n - ?n mod 2"
  let ?h1 = "modify_column h c (\<lambda>r old. if 0 \<le> r \<and> r < ?ipos then f old (value_at h rhs r) else old)"
  have n: "?n = rows (h (mat c))"
    using assms(4) by (simp add: size_col_def)
  have ev: "(?ipos - 0) mod 2 = 0"
    by presburger
  have l: "dense_loop f c rhs ?ipos 0 h = Some ?h1"
    using assms(1,2,3) _ n ev by (rule dense_loop_eq) simp
  show ?thesis
  proof (cases "?ipos < ?n")
    case False
    then have "?ipos = ?n" by presburger
    then have "?h1 = modify_column h c (\<lambda>r old. if r < ?n then f old (value_at h rhs r) else old)"
      by simp
    with False l assms(4) show ?thesis
      by (simp add: dense_kernel_def Let_def)
  next
    case True
    let ?x = "value_at h rhs ?ipos"
    have x: "vec_at ?h1 rhs ?ipos = Some ?x"
      using assms(1,2) True vec_at_value [of ?h1 rhs ?ipos] by simp
    have m: "elem_modify f ?h1 c ?ipos ?x =
        Some (modify_column ?h1 c (\<lambda>r old. if r = ?ipos then f old ?x else old))"
      using assms(3) True n by (simp add: elem_modify_eq cong: if_cong)
    have "modify_column ?h1 c (\<lambda>r old. if r = ?ipos then f old ?x else old)
        = modify_column h c (\<lambda>r old. if r < ?n then f old (value_at h rhs r) else old)"
      unfolding modify_column_twice
      using True by (intro modify_column_cong) auto
    with True l x m assms(4) show ?thesis
      by (simp add: dense_kernel_def Let_def)
  qed
qed

lemma column_values_eq:
  "col r < columns (h (mat r)) \<Longrightarrow>
   column_values h r i = Some (map (\<lambda>k. elems (h (mat r)) k (col r)) [i..<size_col h r])"
proof (induction h r i rule: column_values.induct)
  case (1 h r i)
  show ?case
  proof (cases "i < size_col h r")
    case False
    then show ?thesis by (simp add: column_values.simps [of h r i])
  next
    case True
    then have s: "subscript h r i = Some (elems (h (mat r)) i (col r))"
      using 1 by (simp add: subscript_eq size_col_def)
    have "column_values h r (i + 1)
        = Some (map (\<lambda>k. elems (h (mat r)) k (col r)) [i + 1..<size_col h r])"
      using 1 True s by simp
    with True s show ?thesis
      by (simp add: column_values.simps [of h r i] upt_conv_Cons)
  qed
qed

lemma product_values_eq:
  "valid_vector h rhs \<Longrightarrow> col c < columns (h (mat c)) \<Longrightarrow> size_col h c = vec_size h rhs \<Longrightarrow>
   product_values h c rhs i
     = Some (map (\<lambda>k. elems (h (mat c)) k (col c) * value_at h rhs k) [i..<size_col h c])"
proof (induction h c rhs i rule: product_values.induct)
  case (1 h c rhs i)
  show ?case
  proof (cases "i < size_col h c")
    case False
    then show ?thesis by (simp add: product_values.simps [of h c rhs i])
  next
    case True
    then have s: "subscript h c i = Some (elems (h (mat c)) i (col c))"
      using 1 by (simp add: subscript_eq size_col_def)
    have v: "vec_at h rhs i = Some (value_at h rhs i)"
      using 1 True by (simp add: vec_at_value)
    have "product_values h c rhs (i + 1)
        = Some (map (\<lambda>k. elems (h (mat c)) k (col c) * value_at h rhs k) [i + 1..<size_col h c])"
      using 1 True s v by simp
    with True s v show ?thesis
      by (simp add: product_values.simps [of h c rhs i] upt_conv_Cons)
  qed
qed

lemma multAssign_loop_eq:
  "col c < columns (h (mat c)) \<Longrightarrow>
   list_all (\<lambda>e. fst e < length tmp \<and> fst e < rows (h (mat c))) es \<Longrightarrow>
   multAssign_loop c tmp es h =
     Some (modify_column h c
       (\<lambda>r old. fold (\<lambda>e acc. if fst e = r then tmp ! r * snd e else acc) es old))"
proof (induction es arbitrary: h)
  case Nil
  then show ?case by (simp add: modify_column_id)
next
  case (Cons e es)
  let ?h1 = "modify_column h c (\<lambda>r old. if r = fst e then tmp ! fst e * snd e else old)"
  have w: "elem_write h (mat c) (fst e) (col c) (tmp ! fst e * snd e) = Some ?h1"
    using Cons.prems by (simp add: elem_write_eq)
  have "multAssign_loop c tmp es ?h1 =
     Some (modify_column ?h1 c
       (\<lambda>r old. fold (\<lambda>e acc. if fst e = r then tmp ! r * snd e else acc) es old))"
    using Cons.prems by (intro Cons.IH) simp_all
  moreover have "modify_column ?h1 c
       (\<lambda>r old. fold (\<lambda>e acc. if fst e = r then tmp ! r * snd e else acc) es old)
     = modify_column h c
       (\<lambda>r old. fold (\<lambda>e acc. if fst e = r then tmp ! r * snd e else acc) (e # es) old)"
    unfolding modify_column_twice by (intro modify_column_cong) auto
  ultimately show ?case
    using Cons.prems w by simp
qed

lemma fold_absent:
  "r \<notin> fst ` set es \<Longrightarrow>
   fold (\<lambda>e acc. if fst e = r then g e else acc) es old = old"
  by (induction es arbitrary: old) auto

lemma fold_distinct:
  "distinct (map fst es) \<Longrightarrow>
   fold (\<lambda>e acc. if fst e = r then g e else acc) es old
     = (case map_of es r of None \<Rightarrow> old | Some x \<Rightarrow> g (r, x))"
proof (induction es arbitrary: old)
  case Nil
  then show ?case by simp
next
  case (Cons e es)
  show ?case
  proof (cases "fst e = r")
    case True
    then have "r \<notin> fst ` set es" using Cons.prems by auto
    then show ?thesis using True by (cases e) (simp add: fold_absent)
  next
    case False
    then show ?thesis using Cons by (cases e) auto
  qed
qed

lemma strict_sorted_distinct: "sorted_wrt (<) (xs :: nat list) \<Longrightarrow> distinct xs"
  by (induction xs) auto

lemma dense_range_eq:
  "valid_vector h rhs \<Longrightarrow> hi \<le> vec_size h rhs \<Longrightarrow>
   dense_range h rhs i hi = Some (\<forall>r. i \<le> r \<and> r < hi \<longrightarrow> value_at h rhs r = 0)"
proof (induction h rhs i hi rule: dense_range.induct)
  case (1 h rhs i hi)
  show ?case
  proof (cases "i < hi")
    case False
    then show ?thesis by (auto simp add: dense_range.simps [of h rhs i hi])
  next
    case True
    then have v: "vec_at h rhs i = Some (value_at h rhs i)"
      using 1 by (simp add: vec_at_value)
    show ?thesis
    proof (cases "value_at h rhs i = 0")
      case False
      with True v show ?thesis
        by (auto simp add: dense_range.simps [of h rhs i hi] isDefault_def)
    next
      case z: True
      have "dense_range h rhs (i + 1) hi
          = Some (\<forall>r. i + 1 \<le> r \<and> r < hi \<longrightarrow> value_at h rhs r = 0)"
        using 1 True v z by (simp add: isDefault_def)
      moreover have "(\<forall>r. i + 1 \<le> r \<and> r < hi \<longrightarrow> value_at h rhs r = 0)
          = (\<forall>r. i \<le> r \<and> r < hi \<longrightarrow> value_at h rhs r = 0)"
        using z by (metis Suc_eq_plus1 Suc_leI le_neq_implies_less Suc_leD)
      ultimately show ?thesis
        using True v z by (simp add: dense_range.simps [of h rhs i hi] isDefault_def)
    qed
  qed
qed

lemma sparse_range_eq: "sparse_range es = (\<forall>e\<in>set es. snd e = 0)"
  by (induction es) (auto simp add: isDefault_def)

lemma sparse_diagonal_eq: "sparse_diagonal c es = (\<forall>e\<in>set es. fst e \<noteq> c \<longrightarrow> snd e = 0)"
  by (induction es) (auto simp add: isDefault_def)

lemma lowerBound_take:
  "sorted_wrt (<) (map fst es) \<Longrightarrow>
   set (take (lowerBound es k) es) = {e \<in> set es. fst e < k}"
proof (induction es)
  case Nil
  then show ?case by simp
next
  case (Cons e es)
  show ?case
  proof (cases "fst e < k")
    case True
    then show ?thesis using Cons by auto
  next
    case False
    then have "\<forall>e'\<in>set es. \<not> fst e' < k" using Cons.prems by fastforce
    with False show ?thesis by auto
  qed
qed

lemma lowerBound_drop:
  "sorted_wrt (<) (map fst es) \<Longrightarrow>
   set (drop (lowerBound es k) es) = {e \<in> set es. k \<le> fst e}"
proof (induction es)
  case Nil
  then show ?case by simp
next
  case (Cons e es)
  show ?case
  proof (cases "fst e < k")
    case True
    then show ?thesis using Cons by auto
  next
    case False
    then have "\<forall>e'\<in>set es. k \<le> fst e'" using Cons.prems by fastforce
    with False show ?thesis by auto
  qed
qed

text \<open>The elements of a sparse vector, read through its stored entries.\<close>

lemma sparse_elements:
  assumes "distinct (map fst es)"
  shows "(\<forall>i. P i \<longrightarrow> (case map_of es i of None \<Rightarrow> 0 | Some x \<Rightarrow> x) = (0::'a::zero))
     = (\<forall>e\<in>set es. P (fst e) \<longrightarrow> snd e = 0)"
proof
  assume l: "\<forall>i. P i \<longrightarrow> (case map_of es i of None \<Rightarrow> 0 | Some x \<Rightarrow> x) = (0::'a)"
  show "\<forall>e\<in>set es. P (fst e) \<longrightarrow> snd e = 0"
  proof (intro ballI impI)
    fix e assume e: "e \<in> set es" and p: "P (fst e)"
    then have "map_of es (fst e) = Some (snd e)" using assms by simp
    with l p show "snd e = 0" by fastforce
  qed
next
  assume r: "\<forall>e\<in>set es. P (fst e) \<longrightarrow> snd e = 0"
  show "\<forall>i. P i \<longrightarrow> (case map_of es i of None \<Rightarrow> 0 | Some x \<Rightarrow> x) = (0::'a)"
  proof (intro allI impI)
    fix i assume p: "P i"
    show "(case map_of es i of None \<Rightarrow> 0 | Some x \<Rightarrow> x) = (0::'a)"
    proof (cases "map_of es i")
      case None
      then show ?thesis by simp
    next
      case (Some x)
      then have "(i, x) \<in> set es" by (rule map_of_SomeD)
      with r p Some show ?thesis by fastforce
    qed
  qed
qed

lemma example_heap_Suc [simp]:
  "rows (example_heap (Suc 0)) = 3" "columns (example_heap (Suc 0)) = 3"
  "category (example_heap (Suc 0)) = UpperTriangular"
  by (simp_all add: example_heap_def dense_matrix_def)

lemma checker_dense:
  fixes h :: "'a::zero heap"
  assumes d: "\<not> IsSparseVector rhs" and v: "valid_vector h rhs"
    and s: "vec_size h rhs = size_col h c"
    and r: "IsRestricted (category (h (mat c))) \<longrightarrow> col c < size_col h c"
  shows "preservesInvariant h c rhs = Some
     (case category (h (mat c)) of
        Unconstrained \<Rightarrow> True
      | LowerTriangular \<Rightarrow> (\<forall>i<vec_size h rhs. i < col c \<longrightarrow> value_at h rhs i = 0)
      | UpperTriangular \<Rightarrow> (\<forall>i<vec_size h rhs. col c < i \<longrightarrow> value_at h rhs i = 0)
      | Diagonal \<Rightarrow> (\<forall>i<vec_size h rhs. i \<noteq> col c \<longrightarrow> value_at h rhs i = 0))"
proof -
  let ?n = "vec_size h rhs"
  have lo: "col c \<le> ?n \<Longrightarrow> dense_range h rhs 0 (col c)
      = Some (\<forall>i. 0 \<le> i \<and> i < col c \<longrightarrow> value_at h rhs i = 0)"
    using v by (rule dense_range_eq)
  have up: "dense_range h rhs (col c + 1) (size_col h c)
      = Some (\<forall>i. col c + 1 \<le> i \<and> i < size_col h c \<longrightarrow> value_at h rhs i = 0)"
    using v s by (intro dense_range_eq) simp_all
  show ?thesis
  proof (cases "category (h (mat c))")
    case Unconstrained
    then show ?thesis by (simp add: preservesInvariant_def)
  next
    case LowerTriangular
    with r s have c: "col c < ?n" by simp
    have "(\<forall>i. 0 \<le> i \<and> i < col c \<longrightarrow> value_at h rhs i = 0)
        = (\<forall>i<?n. i < col c \<longrightarrow> value_at h rhs i = 0)"
      using c by auto
    with LowerTriangular d lo c show ?thesis
      by (simp add: preservesInvariant_def)
  next
    case UpperTriangular
    have "(\<forall>i. col c + 1 \<le> i \<and> i < size_col h c \<longrightarrow> value_at h rhs i = 0)
        = (\<forall>i<?n. col c < i \<longrightarrow> value_at h rhs i = 0)"
      using s by auto
    with UpperTriangular d up show ?thesis
      by (simp add: preservesInvariant_def)
  next
    case Diagonal
    with r s have c: "col c < ?n" by simp
    have ab: "((\<forall>i. 0 \<le> i \<and> i < col c \<longrightarrow> value_at h rhs i = 0)
         \<and> (\<forall>i. col c + 1 \<le> i \<and> i < size_col h c \<longrightarrow> value_at h rhs i = 0))
        = (\<forall>i<?n. i \<noteq> col c \<longrightarrow> value_at h rhs i = 0)"
      using c s by (auto simp add: nat_neq_iff)
    let ?A = "\<forall>i. 0 \<le> i \<and> i < col c \<longrightarrow> value_at h rhs i = 0"
    let ?B = "\<forall>i. col c + 1 \<le> i \<and> i < size_col h c \<longrightarrow> value_at h rhs i = 0"
    have p: "preservesInvariant h c rhs =
        (case dense_range h rhs 0 (col c) of
           None \<Rightarrow> None
         | Some False \<Rightarrow> Some False
         | Some True \<Rightarrow> dense_range h rhs (col c + 1) (size_col h c))"
      using Diagonal d by (simp add: preservesInvariant_def)
    have "preservesInvariant h c rhs = Some (?A \<and> ?B)"
    proof (cases ?A)
      case True
      then show ?thesis unfolding p up using lo c by simp
    next
      case False
      have "dense_range h rhs 0 (col c) = Some ?A"
        using c by (intro lo) simp
      also have "?A = False" using False by blast
      finally show ?thesis unfolding p using False by simp
    qed
    with ab Diagonal show ?thesis by simp
  qed
qed

lemma checker_sparse:
  fixes h :: "'a::zero heap"
  assumes e: "valid_entries n es"
  shows "preservesInvariant h c (CompressedVector n es) = Some
     (case category (h (mat c)) of
        Unconstrained \<Rightarrow> True
      | LowerTriangular \<Rightarrow> (\<forall>i<n. i < col c \<longrightarrow> value_at h (CompressedVector n es) i = 0)
      | UpperTriangular \<Rightarrow> (\<forall>i<n. col c < i \<longrightarrow> value_at h (CompressedVector n es) i = 0)
      | Diagonal \<Rightarrow> (\<forall>i<n. i \<noteq> col c \<longrightarrow> value_at h (CompressedVector n es) i = 0))"
proof -
  have so: "sorted_wrt (<) (map fst es)" and bd: "\<forall>e\<in>set es. fst e < n"
    using e by (simp_all add: list_all_iff)
  have di: "distinct (map fst es)"
    using so by (rule strict_sorted_distinct)
  have el: "(\<forall>i<n. P i \<longrightarrow> value_at h (CompressedVector n es) i = 0)
      = (\<forall>e\<in>set es. P (fst e) \<longrightarrow> snd e = 0)" for P
    using sparse_elements [OF di, of "\<lambda>i. i < n \<and> P i"] bd by auto
  show ?thesis
  proof (cases "category (h (mat c))")
    case Unconstrained
    then show ?thesis by (simp add: preservesInvariant_def)
  next
    case LowerTriangular
    then show ?thesis
      unfolding el using so
      by (auto simp add: preservesInvariant_def sparse_range_eq lowerBound_take)
  next
    case UpperTriangular
    then show ?thesis
      unfolding el using so
      by (auto simp add: preservesInvariant_def sparse_range_eq lowerBound_drop Suc_le_eq)
  next
    case Diagonal
    then show ?thesis
      unfolding el by (simp add: preservesInvariant_def sparse_diagonal_eq)
  qed
qed

subsection \<open>The predicates of the invariant checker\<close>

text \<open>
  C2. \<open>preservesInvariant\<close> computes a truth value from the store, the view and the
  right-hand side and changes nothing. For an unconstrained matrix it is true. For a
  lower triangular matrix it is true exactly when every element of the right-hand side
  at an index below \<open>col\<close> is the default value, for an upper triangular matrix when
  every element at an index above \<open>col\<close> is, for a diagonal matrix when every element
  at an index other than \<open>col\<close> is. This holds for a dense and for a sparse right-hand
  side, whose element at an index is the stored value or the default value. The
  right-hand side has the size of the view (the size check precedes the call), a sparse
  one has its entries in increasing index order below its size, and the column index of
  a view on a restricted matrix, which is square, is below the number of rows.
\<close>

theorem invariant_checker_predicates:
  fixes h :: "'a::zero heap"
  assumes "valid_vector h rhs"
    and "IsSparseVector rhs \<longrightarrow> valid_entries (vec_size h rhs) (entries rhs)"
    and "vec_size h rhs = size_col h c"
    and "IsRestricted (category (h (mat c))) \<longrightarrow> col c < size_col h c"
  shows "preservesInvariant h c rhs = Some
     (case category (h (mat c)) of
        Unconstrained \<Rightarrow> True
      | LowerTriangular \<Rightarrow> (\<forall>i<vec_size h rhs. i < col c \<longrightarrow> vec_at h rhs i = Some 0)
      | UpperTriangular \<Rightarrow> (\<forall>i<vec_size h rhs. col c < i \<longrightarrow> vec_at h rhs i = Some 0)
      | Diagonal \<Rightarrow> (\<forall>i<vec_size h rhs. i \<noteq> col c \<longrightarrow> vec_at h rhs i = Some 0))"
proof -
  have va: "(\<forall>i<vec_size h rhs. P i \<longrightarrow> vec_at h rhs i = Some 0)
      = (\<forall>i<vec_size h rhs. P i \<longrightarrow> value_at h rhs i = 0)" for P
    using assms(1) by (auto simp add: vec_at_value)
  show ?thesis
  proof (cases "IsSparseVector rhs")
    case False
    then show ?thesis
      unfolding va using assms(1,3,4) by (rule checker_dense)
  next
    case True
    then obtain n es where rhs: "rhs = CompressedVector n es"
      by (cases rhs) simp_all
    with True assms(2) have "valid_entries n es" by simp
    then show ?thesis
      unfolding va unfolding rhs vec_size.simps by (rule checker_sparse)
  qed
qed

theorem invariant_checker_predicates_witness:
  "preservesInvariant example_heap \<lparr>this = 10, mat = 0, col = 1\<rparr> (DynamicVector [0, 5, 6]) = Some True
   \<and> preservesInvariant example_heap \<lparr>this = 10, mat = 0, col = 1\<rparr> (DynamicVector [1, 5, 6]) = Some False
   \<and> preservesInvariant example_heap \<lparr>this = 10, mat = 1, col = 1\<rparr> (CompressedVector 3 [(0, 4), (2, 9)]) = Some False
   \<and> preservesInvariant example_heap \<lparr>this = 10, mat = 2, col = 1\<rparr> (CompressedVector 3 [(1, 5)]) = Some True
   \<and> preservesInvariant example_heap \<lparr>this = 10, mat = 3, col = 1\<rparr> (DynamicVector [1, 2, 3, 4]) = Some True"
proof -
  have 1: "preservesInvariant example_heap \<lparr>this = 10, mat = 0, col = 1\<rparr> (DynamicVector [0, 5, 6]) = Some True"
    using invariant_checker_predicates [where h = example_heap
        and c = "\<lparr>this = 10, mat = 0, col = 1\<rparr>" and rhs = "DynamicVector [0, 5, 6]"]
    by (simp add: size_col_def)
  have 2: "preservesInvariant example_heap \<lparr>this = 10, mat = 0, col = 1\<rparr> (DynamicVector [1, 5, 6]) = Some False"
    using invariant_checker_predicates [where h = example_heap
        and c = "\<lparr>this = 10, mat = 0, col = 1\<rparr>" and rhs = "DynamicVector [1, 5, 6]"]
    by (simp add: size_col_def)
  have 3: "preservesInvariant example_heap \<lparr>this = 10, mat = 1, col = 1\<rparr> (CompressedVector 3 [(0, 4), (2, 9)]) = Some False"
    using invariant_checker_predicates [where h = example_heap
        and c = "\<lparr>this = 10, mat = 1, col = 1\<rparr>" and rhs = "CompressedVector 3 [(0, 4), (2, 9)]"]
    by (simp add: size_col_def) (rule exI [of _ 2], simp)
  have 4: "preservesInvariant example_heap \<lparr>this = 10, mat = 2, col = 1\<rparr> (CompressedVector 3 [(1, 5)]) = Some True"
    using invariant_checker_predicates [where h = example_heap
        and c = "\<lparr>this = 10, mat = 2, col = 1\<rparr>" and rhs = "CompressedVector 3 [(1, 5)]"]
    by (simp add: size_col_def)
  have 5: "preservesInvariant example_heap \<lparr>this = 10, mat = 3, col = 1\<rparr> (DynamicVector [1, 2, 3, 4]) = Some True"
    using invariant_checker_predicates [where h = example_heap
        and c = "\<lparr>this = 10, mat = 3, col = 1\<rparr>" and rhs = "DynamicVector [1, 2, 3, 4]"]
    by (simp add: size_col_def)
  from 1 2 3 4 5 show ?thesis by simp
qed

subsection \<open>The intrinsic kernels\<close>

lemma IT_size_pos [simp]: "0 < IT_size cfg"
  by (simp add: IT_size_def)

lemma padded_at_modify [simp]:
  "independent rhs c \<Longrightarrow> padded_at (modify_column h c g) rhs i = padded_at h rhs i"
  by (cases rhs) (simp_all add: modify_column_elems)

lemma padded_at_value:
  "i < vec_size h rhs \<Longrightarrow> padded_at h rhs i = value_at h rhs i"
  by (cases rhs) simp_all

lemma vec_load_eq:
  "\<not> IsSparseVector rhs \<Longrightarrow> valid_vector h rhs \<Longrightarrow> i < vec_size h rhs \<Longrightarrow>
   vec_load n h rhs i = Some (map (\<lambda>k. padded_at h rhs (i + k)) [0..<n])"
  by (cases rhs) (simp_all add: block_load_def size_col_def)

lemma block_store_eq:
  assumes "i < rows (h (mat c))" and "col c < columns (h (mat c))"
  shows "\<exists>m. block_store (h (mat c)) i (col c) b = Some m
     \<and> h(mat c := m) =
         modify_column h c (\<lambda>r old. if i \<le> r \<and> r < i + length b then b ! (r - i) else old)"
  using assms
  by (auto simp add: block_store_def modify_column_def fun_eq_iff intro!: matrix.equality)

lemma block_modify_eq:
  assumes "i < rows (h (mat c))" and "col c < columns (h (mat c))" and "length b = n"
  shows "block_modify f n h c i b =
     Some (modify_column h c (\<lambda>r old. if i \<le> r \<and> r < i + n then f old (b ! (r - i)) else old))"
proof -
  let ?old = "map (\<lambda>k. elems (h (mat c)) (i + k) (col c)) [0..<n]"
  have l: "block_load n (h (mat c)) i (col c) = Some ?old"
    using assms by (simp add: block_load_def)
  obtain m where s: "block_store (h (mat c)) i (col c) (map2 f ?old b) = Some m"
    and m: "h(mat c := m) = modify_column h c
        (\<lambda>r old. if i \<le> r \<and> r < i + length (map2 f ?old b) then map2 f ?old b ! (r - i) else old)"
    using block_store_eq [of i h c "map2 f ?old b"] assms(1,2) by blast
  have "modify_column h c
        (\<lambda>r old. if i \<le> r \<and> r < i + length (map2 f ?old b) then map2 f ?old b ! (r - i) else old)
      = modify_column h c (\<lambda>r old. if i \<le> r \<and> r < i + n then f old (b ! (r - i)) else old)"
    unfolding modify_column_def using assms(3)
    by (auto simp add: fun_eq_iff intro!: matrix.equality arg_cong [where f = "fun_upd h (mat c)"])
  with l s m show ?thesis
    by (simp add: block_modify_def)
qed

lemma block_step:
  assumes "\<not> IsSparseVector rhs" and "valid_vector h rhs" and "i < vec_size h rhs"
    and "vec_size h rhs = rows (h (mat c))" and "col c < columns (h (mat c))"
  shows "\<exists>b. vec_load n h rhs i = Some b
     \<and> block_modify f n h c i b =
         Some (modify_column h c
           (\<lambda>r old. if i \<le> r \<and> r < i + n then f old (padded_at h rhs r) else old))"
proof -
  let ?b = "map (\<lambda>k. padded_at h rhs (i + k)) [0..<n]"
  have l: "vec_load n h rhs i = Some ?b"
    using assms(1,2,3) by (rule vec_load_eq)
  have "block_modify f n h c i ?b =
     Some (modify_column h c (\<lambda>r old. if i \<le> r \<and> r < i + n then f old (?b ! (r - i)) else old))"
    using assms(3,4,5) by (intro block_modify_eq) simp_all
  moreover have "modify_column h c (\<lambda>r old. if i \<le> r \<and> r < i + n then f old (?b ! (r - i)) else old)
      = modify_column h c (\<lambda>r old. if i \<le> r \<and> r < i + n then f old (padded_at h rhs r) else old)"
    by (intro modify_column_cong) auto
  ultimately show ?thesis using l by simp
qed

lemma transferred_shape [simp]:
  "rows (transferred f h c rhs lo hi b) = rows (h b)"
  "columns (transferred f h c rhs lo hi b) = columns (h b)"
  "category (transferred f h c rhs lo hi b) = category (h b)"
  "size_col (transferred f h c rhs lo hi) r = size_col h r"
  "vec_size (transferred f h c rhs lo hi) v = vec_size h v"
  "valid_vector (transferred f h c rhs lo hi) v = valid_vector h v"
  by (simp_all add: transferred_def)

lemma transferred_padded [simp]:
  "independent v c \<Longrightarrow> padded_at (transferred f h c rhs lo hi) v i = padded_at h v i"
  by (simp add: transferred_def)

lemma transferred_elems:
  "elems (transferred f h c rhs lo hi b) i k =
     (if b = mat c \<and> k = col c \<and> lo \<le> i \<and> i < hi
      then f (elems (h b) i k) (padded_at h rhs i) else elems (h b) i k)"
  by (simp add: transferred_def modify_column_elems)

lemma transferred_empty: "hi \<le> lo \<Longrightarrow> transferred f h c rhs lo hi = h"
proof -
  assume "hi \<le> lo"
  then have "(\<lambda>r old. if lo \<le> r \<and> r < hi then f old (padded_at h rhs r) else old)
      = (\<lambda>r old. old)"
    by (auto simp add: fun_eq_iff)
  then show ?thesis by (simp add: transferred_def modify_column_id)
qed

lemma transferred_join:
  assumes "independent rhs c" and "lo \<le> mid" and "mid \<le> hi"
  shows "transferred f (transferred f h c rhs lo mid) c rhs mid hi = transferred f h c rhs lo hi"
proof -
  have "padded_at (transferred f h c rhs lo mid) rhs r = padded_at h rhs r" for r
    using assms(1) by simp
  then show ?thesis
    unfolding transferred_def [of f "transferred f h c rhs lo mid"]
    unfolding transferred_def modify_column_twice
    using assms(2,3) by (intro modify_column_cong) auto
qed

lemma block_transfer:
  assumes "\<not> IsSparseVector rhs" and "valid_vector h rhs" and "i < vec_size h rhs"
    and "vec_size h rhs = rows (h (mat c))" and "col c < columns (h (mat c))"
  shows "\<exists>b. vec_load n h rhs i = Some b
     \<and> block_modify f n h c i b = Some (transferred f h c rhs i (i + n))"
  unfolding transferred_def using assms by (rule block_step)

lemma block_end_ge: "i \<le> block_end cfg n i \<and> n \<le> block_end cfg n i"
proof (induction cfg n i rule: block_end.induct)
  case (1 cfg n i)
  show ?case
  proof (cases "i < n")
    case True
    with 1 show ?thesis by (simp add: block_end.simps [of cfg n i])
  next
    case False
    then show ?thesis by (simp add: block_end.simps [of cfg n i])
  qed
qed

lemma simd_loop1_eq:
  "it = i \<Longrightarrow> \<not> IsSparseVector rhs \<Longrightarrow> independent rhs c \<Longrightarrow> valid_vector h rhs \<Longrightarrow>
   col c < columns (h (mat c)) \<Longrightarrow> vec_size h rhs = rows (h (mat c)) \<Longrightarrow> n \<le> vec_size h rhs \<Longrightarrow>
   simd_loop1 f cfg c rhs n i it h = Some (transferred f h c rhs i (block_end cfg n i))"
proof (induction f cfg c rhs n i it h rule: simd_loop1.induct)
  case (1 f cfg c rhs n i it h)
  show ?case
  proof (cases "i < n")
    case False
    then show ?thesis
      by (simp add: simd_loop1.simps [of f cfg c rhs n i it h] block_end.simps [of cfg n i]
          transferred_empty)
  next
    case True
    let ?s = "IT_size cfg"
    let ?h1 = "transferred f h c rhs i (i + ?s)"
    from True "1.prems" have iv: "i < vec_size h rhs" by simp
    obtain b where l: "vec_load ?s h rhs it = Some b"
      and m: "block_modify f ?s h c i b = Some ?h1"
      using block_transfer [OF "1.prems"(2,4) iv "1.prems"(6,5), of ?s f] "1.prems"(1) by blast
    have "simd_loop1 f cfg c rhs n (i + ?s) (it + ?s) ?h1
        = Some (transferred f ?h1 c rhs (i + ?s) (block_end cfg n (i + ?s)))"
      using "1.IH" [OF True l m] "1.prems" by simp
    moreover have "transferred f ?h1 c rhs (i + ?s) (block_end cfg n (i + ?s))
        = transferred f h c rhs i (block_end cfg n (i + ?s))"
      using "1.prems"(3) block_end_ge [of "i + ?s" cfg n] by (intro transferred_join) simp_all
    ultimately show ?thesis
      using True l m
      by (simp add: simd_loop1.simps [of f cfg c rhs n i it h] block_end.simps [of cfg n i])
  qed
qed

lemma stream_transfer:
  assumes "\<not> IsSparseVector rhs" and "valid_vector h rhs" and "i < vec_size h rhs"
    and "vec_size h rhs = rows (h (mat c))" and "col c < columns (h (mat c))"
  shows "\<exists>b m. vec_load n h rhs i = Some b
     \<and> block_stream (h (mat c)) i (col c) b = Some m
     \<and> h(mat c := m) = transferred (\<lambda>old x. x) h c rhs i (i + n)"
proof -
  let ?b = "map (\<lambda>k. padded_at h rhs (i + k)) [0..<n]"
  have l: "vec_load n h rhs i = Some ?b"
    using assms(1,2,3) by (rule vec_load_eq)
  have i: "i < rows (h (mat c))"
    using assms(3,4) by simp
  obtain m where s: "block_store (h (mat c)) i (col c) ?b = Some m"
    and m: "h(mat c := m) = modify_column h c
        (\<lambda>r old. if i \<le> r \<and> r < i + length ?b then ?b ! (r - i) else old)"
    using block_store_eq [of i h c ?b] i assms(5) by blast
  have "modify_column h c (\<lambda>r old. if i \<le> r \<and> r < i + length ?b then ?b ! (r - i) else old)
      = transferred (\<lambda>old x. x) h c rhs i (i + n)"
    unfolding transferred_def by (intro modify_column_cong) auto
  with l s m show ?thesis by (simp add: block_stream_def)
qed

lemma stream_loop_eq:
  "\<not> IsSparseVector rhs \<Longrightarrow> independent rhs c \<Longrightarrow> valid_vector h rhs \<Longrightarrow>
   col c < columns (h (mat c)) \<Longrightarrow> vec_size h rhs = rows (h (mat c)) \<Longrightarrow> n \<le> vec_size h rhs \<Longrightarrow>
   stream_loop cfg c rhs n i h = Some (transferred (\<lambda>old x. x) h c rhs i (block_end cfg n i))"
proof (induction cfg c rhs n i h rule: stream_loop.induct)
  case (1 cfg c rhs n i h)
  show ?case
  proof (cases "i < n")
    case False
    then show ?thesis
      by (simp add: stream_loop.simps [of cfg c rhs n i h] block_end.simps [of cfg n i]
          transferred_empty)
  next
    case True
    let ?s = "IT_size cfg"
    let ?h1 = "transferred (\<lambda>old x. x) h c rhs i (i + ?s)"
    from True "1.prems" have iv: "i < vec_size h rhs" by simp
    obtain b m where l: "vec_load ?s h rhs i = Some b"
      and w: "block_stream (h (mat c)) i (col c) b = Some m"
      and m: "h(mat c := m) = ?h1"
      using stream_transfer [OF "1.prems"(1,3) iv "1.prems"(5,4), of ?s] by blast
    have "stream_loop cfg c rhs n (i + ?s) (h(mat c := m))
        = Some (transferred (\<lambda>old x. x) (h(mat c := m)) c rhs (i + ?s) (block_end cfg n (i + ?s)))"
      using "1.IH" [OF True l w] "1.prems" unfolding m by simp
    moreover have "transferred (\<lambda>old x. x) ?h1 c rhs (i + ?s) (block_end cfg n (i + ?s))
        = transferred (\<lambda>old x. x) h c rhs i (block_end cfg n (i + ?s))"
      using "1.prems"(2) block_end_ge [of "i + ?s" cfg n] by (intro transferred_join) simp_all
    ultimately show ?thesis
      using True l w m
      by (simp add: stream_loop.simps [of cfg c rhs n i h] block_end.simps [of cfg n i])
  qed
qed

lemma unrolled_step:
  fixes s :: nat
  assumes "i < ipos" and "(ipos - i) mod (s * 4) = 0" and "0 < s"
  shows "i + s * 4 \<le> ipos" and "(ipos - (i + s * 4)) mod (s * 4) = 0"
proof -
  have d: "s * 4 dvd ipos - i"
    using assms(2) by (simp add: mod_eq_0_iff_dvd)
  moreover have "0 < ipos - i" using assms(1) by simp
  ultimately have "s * 4 \<le> ipos - i" by (rule dvd_imp_le)
  then show le: "i + s * 4 \<le> ipos" using assms(1) by simp
  have "s * 4 dvd ipos - i - s * 4"
    by (rule dvd_diff_nat [OF d dvd_refl])
  then have "s * 4 dvd ipos - (i + s * 4)"
    by (simp only: diff_diff_left)
  then show "(ipos - (i + s * 4)) mod (s * 4) = 0"
    by (simp only: mod_eq_0_iff_dvd)
qed

lemma simd_loop4_eq:
  "it = i \<Longrightarrow> \<not> IsSparseVector rhs \<Longrightarrow> independent rhs c \<Longrightarrow> valid_vector h rhs \<Longrightarrow>
   col c < columns (h (mat c)) \<Longrightarrow> vec_size h rhs = rows (h (mat c)) \<Longrightarrow> ipos \<le> vec_size h rhs \<Longrightarrow>
   i \<le> ipos \<Longrightarrow> (ipos - i) mod (IT_size cfg * 4) = 0 \<Longrightarrow>
   simd_loop4 f cfg c rhs ipos i it h = Some (transferred f h c rhs i ipos, ipos)"
proof (induction f cfg c rhs ipos i it h rule: simd_loop4.induct)
  case (1 f cfg c rhs ipos i it h)
  show ?case
  proof (cases "i < ipos")
    case False
    then have "simd_loop4 f cfg c rhs ipos i it h = Some (h, it)"
      by (simp add: simd_loop4.simps [of f cfg c rhs ipos i it h])
    moreover from False "1.prems" have "it = ipos" by simp
    moreover from False have "transferred f h c rhs i ipos = h"
      by (intro transferred_empty) simp
    ultimately show ?thesis by simp
  next
    case True
    let ?s = "IT_size cfg"
    let ?h1 = "transferred f h c rhs i (i + ?s)"
    let ?h2 = "transferred f h c rhs i (i + ?s * 2)"
    let ?h3 = "transferred f h c rhs i (i + ?s * 3)"
    let ?h4 = "transferred f h c rhs i (i + ?s * 4)"
    have le: "i + ?s * 4 \<le> ipos" and md: "(ipos - (i + ?s * 4)) mod (?s * 4) = 0"
      using unrolled_step [OF True "1.prems"(9)] by simp_all
    have sp: "0 < ?s" by simp
    have v: "i < vec_size h rhs" "i + ?s < vec_size h rhs" "i + ?s * 2 < vec_size h rhs"
      "i + ?s * 3 < vec_size h rhs"
      using le IT_size_pos [of cfg] "1.prems"(7) by linarith+
    note p = "1.prems"
    have e: "i + ?s + ?s = i + ?s * 2" "i + ?s * 2 + ?s = i + ?s * 3"
      "i + ?s * 3 + ?s = i + ?s * 4"
      by simp_all
    obtain b0 where l0: "vec_load ?s h rhs it = Some b0"
      and m0: "block_modify f ?s h c i b0 = Some ?h1"
      using block_transfer [OF p(2,4) v(1) p(6,5), of ?s f] p(1) by blast
    obtain b1 where l1: "vec_load ?s ?h1 rhs (it + ?s) = Some b1"
      and m1': "block_modify f ?s ?h1 c (i + ?s) b1
          = Some (transferred f ?h1 c rhs (i + ?s) (i + ?s + ?s))"
      using block_transfer [of rhs ?h1 "i + ?s" c ?s f] p v(2) by auto
    have j1: "transferred f ?h1 c rhs (i + ?s) (i + ?s + ?s) = ?h2"
      unfolding e using p(3) by (intro transferred_join) simp_all
    have m1: "block_modify f ?s ?h1 c (i + ?s) b1 = Some ?h2"
      using m1' j1 by simp
    obtain b2 where l2: "vec_load ?s ?h2 rhs (it + ?s * 2) = Some b2"
      and m2': "block_modify f ?s ?h2 c (i + ?s * 2) b2
          = Some (transferred f ?h2 c rhs (i + ?s * 2) (i + ?s * 2 + ?s))"
      using block_transfer [of rhs ?h2 "i + ?s * 2" c ?s f] p v(3) by auto
    have j2: "transferred f ?h2 c rhs (i + ?s * 2) (i + ?s * 2 + ?s) = ?h3"
      unfolding e using p(3) by (intro transferred_join) simp_all
    have m2: "block_modify f ?s ?h2 c (i + ?s * 2) b2 = Some ?h3"
      using m2' j2 by simp
    obtain b3 where l3: "vec_load ?s ?h3 rhs (it + ?s * 3) = Some b3"
      and m3': "block_modify f ?s ?h3 c (i + ?s * 3) b3
          = Some (transferred f ?h3 c rhs (i + ?s * 3) (i + ?s * 3 + ?s))"
      using block_transfer [of rhs ?h3 "i + ?s * 3" c ?s f] p v(4) by auto
    have j3: "transferred f ?h3 c rhs (i + ?s * 3) (i + ?s * 3 + ?s) = ?h4"
      unfolding e using p(3) by (intro transferred_join) simp_all
    have m3: "block_modify f ?s ?h3 c (i + ?s * 3) b3 = Some ?h4"
      using m3' j3 by simp
    have "simd_loop4 f cfg c rhs ipos (i + ?s * 4) (it + ?s * 4) ?h4
        = Some (transferred f ?h4 c rhs (i + ?s * 4) ipos, ipos)"
      using "1.IH" [OF True l0 m0 l1 m1 l2 m2 l3 m3] p le md by simp
    moreover have "transferred f ?h4 c rhs (i + ?s * 4) ipos = transferred f h c rhs i ipos"
      using p(3) le by (intro transferred_join) simp_all
    ultimately show ?thesis
      using True l0 m0 l1 m1 l2 m2 l3 m3
      by (simp add: simd_loop4.simps [of f cfg c rhs ipos i it h])
  qed
qed

lemma simd_kernel_eq:
  assumes d: "\<not> IsSparseVector rhs" and i: "independent rhs c" and v: "valid_vector h rhs"
    and c: "col c < columns (h (mat c))" and s: "size_col h c = vec_size h rhs"
  shows "\<exists>e. size_col h c \<le> e \<and> simd_kernel f cfg c rhs h = Some (transferred f h c rhs 0 e)"
proof -
  let ?n = "size_col h c"
  let ?ipos = "?n - ?n mod (IT_size cfg * 4)"
  let ?h1 = "transferred f h c rhs 0 ?ipos"
  let ?e = "block_end cfg ?n ?ipos"
  have r: "vec_size h rhs = rows (h (mat c))"
    using s by (simp add: size_col_def)
  have le: "?ipos \<le> vec_size h rhs"
    using s by simp
  have md: "(?ipos - 0) mod (IT_size cfg * 4) = 0"
    by (simp add: mod_eq_0_iff_dvd dvd_minus_mod)
  have l4: "simd_loop4 f cfg c rhs ?ipos 0 0 h = Some (?h1, ?ipos)"
    using refl d i v c r le _ md by (rule simd_loop4_eq) simp
  have "simd_loop1 f cfg c rhs ?n ?ipos ?ipos ?h1 = Some (transferred f ?h1 c rhs ?ipos ?e)"
    using d i v c r s by (intro simd_loop1_eq) simp_all
  moreover have "transferred f ?h1 c rhs ?ipos ?e = transferred f h c rhs 0 ?e"
    using i block_end_ge [of ?ipos cfg ?n] by (intro transferred_join) simp_all
  ultimately have "simd_kernel f cfg c rhs h = Some (transferred f h c rhs 0 ?e)"
    using l4 s by (simp add: simd_kernel_def Let_def)
  moreover have "?n \<le> ?e"
    using block_end_ge [of ?ipos cfg ?n] by simp
  ultimately show ?thesis by blast
qed

lemma simd_assign_eq:
  assumes d: "\<not> IsSparseVector rhs" and i: "independent rhs c" and v: "valid_vector h rhs"
    and c: "col c < columns (h (mat c))" and s: "size_col h c = vec_size h rhs"
  shows "\<exists>e. size_col h c \<le> e
     \<and> simd_assign cfg c rhs h = Some (transferred (\<lambda>old x. x) h c rhs 0 e)"
proof (cases "useStreaming cfg
    \<and> size_col h c > cacheSize cfg div (sizeof_ElementType cfg * 3) \<and> \<not> isAliased rhs c")
  case True
  have r: "vec_size h rhs = rows (h (mat c))"
    using s by (simp add: size_col_def)
  have "stream_loop cfg c rhs (size_col h c) 0 h
      = Some (transferred (\<lambda>old x. x) h c rhs 0 (block_end cfg (size_col h c) 0))"
    using d i v c r s by (intro stream_loop_eq) simp_all
  then have "simd_assign cfg c rhs h
      = Some (transferred (\<lambda>old x. x) h c rhs 0 (block_end cfg (size_col h c) 0))"
    using True s by (simp add: simd_assign_def)
  moreover have "size_col h c \<le> block_end cfg (size_col h c) 0"
    using block_end_ge [of 0 cfg "size_col h c"] by simp
  ultimately show ?thesis by blast
next
  case False
  then have "simd_assign cfg c rhs h = simd_kernel (\<lambda>old x. x) cfg c rhs h"
    using s by (auto simp add: simd_assign_def)
  then show ?thesis
    using simd_kernel_eq [OF d i v c s, of "\<lambda>old x. x" cfg] by simp
qed

lemma dense_kernel_transfer:
  assumes i: "independent rhs c" and v: "valid_vector h rhs"
    and c: "col c < columns (h (mat c))" and s: "size_col h c = vec_size h rhs"
  shows "dense_kernel f c rhs h = Some (transferred f h c rhs 0 (size_col h c))"
proof -
  have "dense_kernel f c rhs h =
     Some (modify_column h c (\<lambda>r old. if r < vec_size h rhs then f old (value_at h rhs r) else old))"
    using i v c s by (rule dense_kernel_eq)
  moreover have "modify_column h c
       (\<lambda>r old. if r < vec_size h rhs then f old (value_at h rhs r) else old)
     = transferred f h c rhs 0 (size_col h c)"
    unfolding transferred_def using s
    by (intro modify_column_cong) (simp add: padded_at_value)
  ultimately show ?thesis by simp
qed

text \<open>
  Whichever kernel is selected, a dense right-hand side that does not read the matrix
  is transferred into the rows of the column, and into rows of its padding at most.
\<close>

lemma assign_dense_transfer:
  assumes "\<not> IsSparseVector rhs" and "independent rhs c" and "valid_vector h rhs"
    and "col c < columns (h (mat c))" and "size_col h c = vec_size h rhs"
  shows "\<exists>e. size_col h c \<le> e
     \<and> assign cfg c rhs h = Some (transferred (\<lambda>old x. x) h c rhs 0 e)"
proof (cases "VectorizedAssign cfg")
  case True
  then show ?thesis
    using simd_assign_eq [OF assms, of cfg] assms(1) by (simp add: assign_def)
next
  case False
  then show ?thesis
    using dense_kernel_transfer [OF assms(2-5), of "\<lambda>old x. x"] assms(1)
    by (auto simp add: assign_def)
qed

lemma multAssign_dense_transfer:
  fixes h :: "'a::{zero,times} heap"
  assumes "\<not> IsSparseVector rhs" and "independent rhs c" and "valid_vector h rhs"
    and "col c < columns (h (mat c))" and "size_col h c = vec_size h rhs"
  shows "\<exists>e. size_col h c \<le> e
     \<and> multAssign cfg c rhs h = Some (transferred (\<lambda>old x. old * x) h c rhs 0 e)"
proof (cases "VectorizedMultAssign cfg")
  case True
  then show ?thesis
    using simd_kernel_eq [OF assms, of "\<lambda>old x. old * x" cfg] assms(1)
    by (simp add: multAssign_def)
next
  case False
  then show ?thesis
    using dense_kernel_transfer [OF assms(2-5), of "\<lambda>old x. old * x"] assms(1)
    by (auto simp add: multAssign_def)
qed

subsection \<open>The invariant check of the operators\<close>

text \<open>
  C1, as amended. On a view whose matrix has a restricted category, the vector
  operators \<open>=\<close>, \<open>+=\<close> and \<open>-=\<close> call the invariant checker on the right-hand side
  after the size check and before any write; when the checker reports a violation they
  throw the invalid-assignment exception, and the store at the throw is the store the
  operator started from. The vector operator \<open>*=\<close> does not call the checker: once
  the sizes agree it throws nothing. This holds whichever kernels are configured.
\<close>

theorem invariant_violation_throws_unmodified:
  fixes h :: "'a::{zero,plus,minus,times} heap"
  assumes "IsRestricted (category (h (mat c)))"
    and "size_col h c = vec_size h rhs"
    and "preservesInvariant h c rhs = Some False"
  shows "op_assign cfg c rhs h
       = Throws (invalid_argument ''Invalid assignment to restricted matrix'') h
     \<and> op_add_assign cfg c rhs h
       = Throws (invalid_argument ''Invalid assignment to restricted matrix'') h
     \<and> op_sub_assign cfg c rhs h
       = Throws (invalid_argument ''Invalid assignment to restricted matrix'') h
     \<and> \<not> is_Throws (op_mult_assign cfg c rhs h)"
proof -
  have "\<not> is_Throws (finish r)" for r :: "'a heap option"
    by (cases r) simp_all
  then have "\<not> is_Throws (op_mult_assign cfg c rhs h)"
    using assms(2) by (simp add: op_mult_assign_def split: option.splits)
  then show ?thesis
    using assms(2,3) by (simp add: op_assign_def op_add_assign_def op_sub_assign_def)
qed

theorem invariant_violation_throws_unmodified_witness:
  "op_assign simd_config \<lparr>this = 10, mat = 2, col = 1\<rparr> (DynamicVector [1, 5, 0]) example_heap
     = Throws (invalid_argument ''Invalid assignment to restricted matrix'') example_heap
   \<and> op_add_assign simd_config \<lparr>this = 10, mat = 2, col = 1\<rparr> (DynamicVector [1, 5, 0]) example_heap
     = Throws (invalid_argument ''Invalid assignment to restricted matrix'') example_heap
   \<and> op_sub_assign simd_config \<lparr>this = 10, mat = 2, col = 1\<rparr> (DynamicVector [1, 5, 0]) example_heap
     = Throws (invalid_argument ''Invalid assignment to restricted matrix'') example_heap"
proof -
  have p: "preservesInvariant example_heap \<lparr>this = 10, mat = 2, col = 1\<rparr> (DynamicVector [1, 5, 0])
      = Some False"
    by (simp add: preservesInvariant_def dense_range.simps [of _ _ 0] isDefault_def)
  show ?thesis
    using invariant_violation_throws_unmodified [where h = example_heap and cfg = simd_config
        and c = "\<lparr>this = 10, mat = 2, col = 1\<rparr>" and rhs = "DynamicVector [1, 5, 0]"] p
    by (simp add: size_col_def)
qed

text \<open>
  The claim as the spec states it fails for \<open>*=\<close>. The lower triangular matrix at
  address 0 has the column \<open>(0, 3, 5)\<close> at index 1; the vector \<open>(5, 7, 1)\<close> has a
  nonzero element above the diagonal, so the checker reports a violation. \<open>*=\<close>
  returns all the same, with the default kernel and with the intrinsic kernel, and the
  diagonal element has become \<open>3 * 7\<close>.
\<close>

theorem mult_assign_skips_invariant_check:
  "IsRestricted (category (example_heap 0))
   \<and> size_col example_heap \<lparr>this = 10, mat = 0, col = 1\<rparr>
       = vec_size example_heap (DynamicVector [5, 7, 1])
   \<and> preservesInvariant example_heap \<lparr>this = 10, mat = 0, col = 1\<rparr> (DynamicVector [5, 7, 1])
       = Some False
   \<and> elems (example_heap 0) 1 1 = 3
   \<and> is_Returns (op_mult_assign scalar_config \<lparr>this = 10, mat = 0, col = 1\<rparr>
         (DynamicVector [5, 7, 1]) example_heap)
   \<and> elems (final (op_mult_assign scalar_config \<lparr>this = 10, mat = 0, col = 1\<rparr>
         (DynamicVector [5, 7, 1]) example_heap) 0) 1 1 = 21
   \<and> is_Returns (op_mult_assign simd_config \<lparr>this = 10, mat = 0, col = 1\<rparr>
         (DynamicVector [5, 7, 1]) example_heap)
   \<and> elems (final (op_mult_assign simd_config \<lparr>this = 10, mat = 0, col = 1\<rparr>
         (DynamicVector [5, 7, 1]) example_heap) 0) 1 1 = 21"
proof -
  let ?c = "\<lparr>this = 10, mat = 0, col = 1\<rparr>"
  let ?v = "DynamicVector [5, 7, 1 :: int]"
  have p: "preservesInvariant example_heap ?c ?v = Some False"
    by (simp add: preservesInvariant_def dense_range.simps [of _ _ 0] isDefault_def)
  have e: "elems (example_heap 0) 1 1 = 3"
    by (simp add: example_heap_def dense_matrix_def)
  have k: "is_Returns (op_mult_assign cfg ?c ?v example_heap)
      \<and> elems (final (op_mult_assign cfg ?c ?v example_heap) 0) 1 1 = 21" for cfg
  proof -
    obtain n where n: "size_col example_heap ?c \<le> n"
      and m: "multAssign cfg ?c ?v example_heap
          = Some (transferred (\<lambda>old x. old * x) example_heap ?c ?v 0 n)"
      using multAssign_dense_transfer [of ?v ?c example_heap cfg]
      by (auto simp add: size_col_def)
    have r: "op_mult_assign cfg ?c ?v example_heap
        = Returns (transferred (\<lambda>old x. old * x) example_heap ?c ?v 0 n)"
      unfolding op_mult_assign_def derestrict_def m by (simp add: size_col_def)
    have "1 < n" using n by (simp add: size_col_def)
    then show ?thesis
      unfolding r using e by (simp add: transferred_elems)
  qed
  show ?thesis
    using p e k [of scalar_config] k [of simd_config] by (simp add: size_col_def)
qed

subsection \<open>Multiplication by a sparse vector\<close>

lemma multAssign_sparse_eq:
  fixes h :: "'a::{zero,times} heap"
  assumes c: "col c < columns (h (mat c))" and n: "n = size_col h c"
    and e: "valid_entries n es"
  shows "multAssign cfg c (CompressedVector n es) h =
     Some (modify_column h c (\<lambda>r old. if r < n
        then (case map_of es r of None \<Rightarrow> 0 | Some x \<Rightarrow> elems (h (mat c)) r (col c) * x) else old))"
proof -
  let ?tmp = "map (\<lambda>k. elems (h (mat c)) k (col c)) [0..<size_col h c]"
  let ?h1 = "modify_column h c (\<lambda>r old. if r < size_col h c then 0 else old)"
  have so: "sorted_wrt (<) (map fst es)" and bd: "\<forall>e\<in>set es. fst e < n"
    using e by (simp_all add: list_all_iff)
  have di: "distinct (map fst es)"
    using so by (rule strict_sorted_distinct)
  have t: "column_values h c 0 = Some ?tmp"
    using c by (rule column_values_eq)
  have r: "reset_member True c h = Some ?h1"
    using c by (rule reset_member_eq)
  have "multAssign_loop c ?tmp es ?h1 =
     Some (modify_column ?h1 c
       (\<lambda>r old. fold (\<lambda>e acc. if fst e = r then ?tmp ! r * snd e else acc) es old))"
    using c bd n by (intro multAssign_loop_eq) (simp_all add: list_all_iff size_col_def)
  moreover have "modify_column ?h1 c
       (\<lambda>r old. fold (\<lambda>e acc. if fst e = r then ?tmp ! r * snd e else acc) es old)
     = modify_column h c (\<lambda>r old. if r < n
        then (case map_of es r of None \<Rightarrow> 0 | Some x \<Rightarrow> elems (h (mat c)) r (col c) * x) else old)"
    unfolding modify_column_twice
  proof (intro modify_column_cong)
    fix r and old :: 'a
    have f: "fold (\<lambda>e acc. if fst e = r then ?tmp ! r * snd e else acc) es a
        = (case map_of es r of None \<Rightarrow> a | Some x \<Rightarrow> ?tmp ! r * x)" for a
      using fold_distinct [OF di, of r "\<lambda>e. ?tmp ! r * snd e" a]
      by (simp split: option.splits)
    show "fold (\<lambda>e acc. if fst e = r then ?tmp ! r * snd e else acc) es
          (if r < size_col h c then 0 else old)
        = (if r < n then (case map_of es r of None \<Rightarrow> 0 | Some x \<Rightarrow> elems (h (mat c)) r (col c) * x)
           else old)"
    proof (cases "r < n")
      case True
      then show ?thesis
        unfolding f using n by (simp split: option.splits)
    next
      case False
      then have "map_of es r = None"
        using bd by (auto simp add: map_of_eq_None_iff)
      with False n show ?thesis unfolding f by simp
    qed
  qed
  ultimately show ?thesis
    using t r n by (simp add: multAssign_def)
qed

lemma op_mult_assign_sparse_eq:
  fixes h :: "'a::mult_zero heap"
  assumes c: "col c < columns (h (mat c))" and n: "n = size_col h c"
    and v: "valid_entries n es"
  shows "\<exists>e. n \<le> e \<and> (\<not> VectorizedAssign cfg \<longrightarrow> e = n)
     \<and> op_mult_assign cfg c (CompressedVector n es) h =
       Returns (modify_column h c (\<lambda>r old. if r < e
          then (case map_of es r of None \<Rightarrow> 0 | Some x \<Rightarrow> elems (h (mat c)) r (col c) * x)
          else old))"
proof -
  let ?v = "CompressedVector n es"
  let ?tmp = "map (\<lambda>k. elems (h (mat c)) k (col c) * value_at h ?v k) [0..<size_col h c]"
  let ?t = "DynamicVector ?tmp"
  have p: "product_values h c ?v 0 = Some ?tmp"
    using c n by (intro product_values_eq) simp_all
  have bd: "map_of es r = None" if "n \<le> r" for r
    using that v by (auto simp add: map_of_eq_None_iff list_all_iff)
  have t: "\<not> IsSparseVector ?t" "independent ?t c" "valid_vector h ?t"
    "size_col h c = vec_size h ?t"
    by simp_all
  have "\<exists>e. n \<le> e \<and> (\<not> VectorizedAssign cfg \<longrightarrow> e = n)
      \<and> assign cfg c ?t h = Some (transferred (\<lambda>old x. x) h c ?t 0 e)"
  proof (cases "VectorizedAssign cfg")
    case True
    then show ?thesis
      using assign_dense_transfer [OF t(1,2,3) c t(4), of cfg] n by auto
  next
    case False
    then have "assign cfg c ?t h = dense_kernel (\<lambda>old x. x) c ?t h"
      by (simp add: assign_def)
    then show ?thesis
      using dense_kernel_transfer [OF t(2,3) c t(4), of "\<lambda>old x. x"] n by auto
  qed
  then obtain e where e: "n \<le> e" and e': "\<not> VectorizedAssign cfg \<longrightarrow> e = n"
    and a: "assign cfg c ?t h = Some (transferred (\<lambda>old x. x) h c ?t 0 e)"
    by blast
  have "transferred (\<lambda>old x. x) h c ?t 0 e
      = modify_column h c (\<lambda>r old. if r < e
          then (case map_of es r of None \<Rightarrow> 0 | Some x \<Rightarrow> elems (h (mat c)) r (col c) * x)
          else old)"
    unfolding transferred_def
  proof (intro modify_column_cong)
    fix r and old :: 'a
    show "(if 0 \<le> r \<and> r < e then padded_at h ?t r else old)
        = (if r < e
           then (case map_of es r of None \<Rightarrow> 0 | Some x \<Rightarrow> elems (h (mat c)) r (col c) * x)
           else old)"
    proof (cases "r < n")
      case True
      then show ?thesis using n e by (simp split: option.splits)
    next
      case False
      then show ?thesis using n bd [of r] by simp
    qed
  qed
  with a p n e e' show ?thesis
    by (auto simp add: op_mult_assign_def derestrict_def)
qed

text \<open>
  C7. A sparse vector of the size of the view, its entries in increasing index order
  below its size, is multiplied into a view on a column of its matrix. The sparse
  kernel \<open>multAssign\<close> (copy the column, reset it, write back the products) returns,
  and so does the operator \<open>*=\<close> (assign the materialized product). In either store
  the element at the index of a stored entry is the old element times the value of the
  entry, and the element at every other index is the default value. The two stores are
  the same store when the default kernel assigns the product; the intrinsic kernel
  writes to the padding of the column as well.
\<close>

theorem sparse_multiplication:
  fixes h :: "'a::mult_zero heap"
  assumes "col c < columns (h (mat c))" and "n = size_col h c" and "valid_entries n es"
  shows "\<exists>h' h''. multAssign cfg c (CompressedVector n es) h = Some h'
     \<and> op_mult_assign cfg c (CompressedVector n es) h = Returns h''
     \<and> (\<not> VectorizedAssign cfg \<longrightarrow> h'' = h')
     \<and> (\<forall>e\<in>set es. \<exists>old. subscript h c (fst e) = Some old
            \<and> subscript h' c (fst e) = Some (old * snd e)
            \<and> subscript h'' c (fst e) = Some (old * snd e))
     \<and> (\<forall>i<n. i \<notin> fst ` set es \<longrightarrow> subscript h' c i = Some 0 \<and> subscript h'' c i = Some 0)"
proof -
  let ?g = "\<lambda>e r old. if r < e
        then (case map_of es r of None \<Rightarrow> 0 | Some x \<Rightarrow> elems (h (mat c)) r (col c) * x)
        else (old::'a)"
  let ?h' = "modify_column h c (?g n)"
  have so: "sorted_wrt (<) (map fst es)" and bd: "\<forall>e\<in>set es. fst e < n"
    using assms(3) by (simp_all add: list_all_iff)
  have di: "distinct (map fst es)"
    using so by (rule strict_sorted_distinct)
  have k: "multAssign cfg c (CompressedVector n es) h = Some ?h'"
    using assms by (rule multAssign_sparse_eq)
  obtain e where e: "n \<le> e" and e': "\<not> VectorizedAssign cfg \<longrightarrow> e = n"
    and o: "op_mult_assign cfg c (CompressedVector n es) h = Returns (modify_column h c (?g e))"
    using op_mult_assign_sparse_eq [OF assms, of cfg] by blast
  let ?h'' = "modify_column h c (?g e)"
  have s: "subscript (modify_column h c (?g m)) c i
      = Some (case map_of es i of None \<Rightarrow> 0 | Some x \<Rightarrow> elems (h (mat c)) i (col c) * x)"
    if "i < n" and "n \<le> m" for i m
    using that assms(1,2) by (simp add: subscript_eq modify_column_elems size_col_def)
  have st: "\<exists>old. subscript h c (fst x) = Some old \<and> subscript ?h' c (fst x) = Some (old * snd x)
      \<and> subscript ?h'' c (fst x) = Some (old * snd x)"
    if "x \<in> set es" for x
  proof -
    from that bd have i: "fst x < n" by blast
    from that di have m: "map_of es (fst x) = Some (snd x)" by simp
    have "subscript ?h' c (fst x) = Some (elems (h (mat c)) (fst x) (col c) * snd x)"
      using s [OF i order_refl] m by simp
    moreover have "subscript ?h'' c (fst x) = Some (elems (h (mat c)) (fst x) (col c) * snd x)"
      using s [OF i e] m by simp
    moreover have "subscript h c (fst x) = Some (elems (h (mat c)) (fst x) (col c))"
      using i assms(1,2) by (simp add: subscript_eq size_col_def)
    ultimately show ?thesis by blast
  qed
  have ns: "subscript ?h' c i = Some 0 \<and> subscript ?h'' c i = Some 0"
    if "i < n" and "i \<notin> fst ` set es" for i
  proof -
    from that(2) have "map_of es i = None" by (simp add: map_of_eq_None_iff)
    with s [OF that(1) order_refl] s [OF that(1) e] show ?thesis by simp
  qed
  have eq: "\<not> VectorizedAssign cfg \<longrightarrow> ?h'' = ?h'"
    using e' by auto
  from k o eq st ns show ?thesis by blast
qed

theorem sparse_multiplication_witness:
  "\<exists>h' h''. multAssign simd_config \<lparr>this = 10, mat = 3, col = 2\<rparr>
          (CompressedVector 4 [(1, 2), (3, 10)]) example_heap = Some h'
     \<and> op_mult_assign simd_config \<lparr>this = 10, mat = 3, col = 2\<rparr>
          (CompressedVector 4 [(1, 2), (3, 10)]) example_heap = Returns h''
     \<and> subscript h' \<lparr>this = 10, mat = 3, col = 2\<rparr> 0 = Some 0
     \<and> subscript h' \<lparr>this = 10, mat = 3, col = 2\<rparr> 1 = Some 14
     \<and> subscript h' \<lparr>this = 10, mat = 3, col = 2\<rparr> 2 = Some 0
     \<and> subscript h' \<lparr>this = 10, mat = 3, col = 2\<rparr> 3 = Some 150
     \<and> subscript h'' \<lparr>this = 10, mat = 3, col = 2\<rparr> 0 = Some 0
     \<and> subscript h'' \<lparr>this = 10, mat = 3, col = 2\<rparr> 1 = Some 14
     \<and> subscript h'' \<lparr>this = 10, mat = 3, col = 2\<rparr> 2 = Some 0
     \<and> subscript h'' \<lparr>this = 10, mat = 3, col = 2\<rparr> 3 = Some 150"
proof -
  let ?c = "\<lparr>this = 10, mat = 3, col = 2\<rparr>"
  let ?es = "[(1, 2), (3, 10)] :: (nat \<times> int) list"
  have h1: "col ?c < columns (example_heap (mat ?c))"
    by simp
  have h2: "4 = size_col example_heap ?c"
    by (simp add: size_col_def)
  have h3: "valid_entries 4 ?es"
    by simp
  obtain h' h'' where k: "multAssign simd_config ?c (CompressedVector 4 ?es) example_heap = Some h'"
    and o: "op_mult_assign simd_config ?c (CompressedVector 4 ?es) example_heap = Returns h''"
    and st: "\<forall>e\<in>set ?es. \<exists>old. subscript example_heap ?c (fst e) = Some old
            \<and> subscript h' ?c (fst e) = Some (old * snd e)
            \<and> subscript h'' ?c (fst e) = Some (old * snd e)"
    and ns: "\<forall>i<4. i \<notin> fst ` set ?es \<longrightarrow> subscript h' ?c i = Some 0 \<and> subscript h'' ?c i = Some 0"
    using sparse_multiplication [OF h1 h2 h3, of simd_config] by blast
  have old: "subscript example_heap ?c 1 = Some 7" "subscript example_heap ?c 3 = Some 15"
    by (simp_all add: subscript_eq example_heap_def dense_matrix_def)
  have "subscript h' ?c 1 = Some 14 \<and> subscript h'' ?c 1 = Some 14"
    using st [rule_format, of "(1, 2)"] old by simp
  moreover have "subscript h' ?c 3 = Some 150 \<and> subscript h'' ?c 3 = Some 150"
    using st [rule_format, of "(3, 10)"] old by simp
  moreover have "subscript h' ?c 0 = Some 0 \<and> subscript h'' ?c 0 = Some 0"
    using ns [rule_format, of 0] by simp
  moreover have "subscript h' ?c 2 = Some 0 \<and> subscript h'' ?c 2 = Some 0"
    using ns [rule_format, of 2] by simp
  ultimately show ?thesis using k o by blast
qed

subsection \<open>Assignment of a dense vector\<close>





lemma shape_of_simps [simp]:
  "rows (shape_of h a) = rows (h a)" "columns (shape_of h a) = columns (h a)"
  "category (shape_of h a) = category (h a)"
  by (simp_all add: shape_of_def)



lemma int_heap_simps [simp]:
  "rows (int_heap a) = 2" "columns (int_heap a) = 2" "category (int_heap a) = Unconstrained"
  by (simp_all add: int_heap_def dense_matrix_def)



end
